theory Spec2Isabelle
  imports Main "HOL-Library.Multiset"
begin

section \<open>Code-block schema of golery-slate-code-block: lib/validation/schema.js\<close>

text \<open>
  The file embeds \<^verbatim>\<open>src/lib/validation/schema.js\<close>: the run grouper
  \<^verbatim>\<open>getSuccessiveNodes\<close>, the two repairs \<^verbatim>\<open>onlyLine\<close> and
  \<^verbatim>\<open>noOrphanLine\<close>, and the schema object with its two \<^verbatim>\<open>normalize\<close>
  handlers. The repairs drive a slate editor, so the embedding carries a model of the part of
  slate and Immutable.js they call: a document tree of nodes with keys, the commands
  \<^verbatim>\<open>insertNodeByKey\<close>, \<^verbatim>\<open>removeNodeByKey\<close>, \<^verbatim>\<open>moveNodeByKey\<close>,
  the scope \<^verbatim>\<open>withoutNormalizing\<close>, and the key generator.
\<close>

subsection \<open>Immutable.js lists\<close>

text \<open>
  An Immutable \<^verbatim>\<open>List\<close> is a HOL list. \<^verbatim>\<open>takeWhile\<close>, \<^verbatim>\<open>skip\<close>,
  \<^verbatim>\<open>size\<close>, \<^verbatim>\<open>isEmpty\<close>, \<^verbatim>\<open>concat\<close>, \<^verbatim>\<open>filter\<close> and
  \<^verbatim>\<open>map\<close> are \<open>takeWhile\<close>, \<open>drop\<close>, \<open>length\<close>, \<open>= []\<close>, \<open>@\<close>,
  \<open>filter\<close> and \<open>map\<close>. \<^verbatim>\<open>takeUntil(p)\<close> takes the longest prefix on which
  \<^verbatim>\<open>p\<close> is false. \<^verbatim>\<open>first()\<close> of an empty list is \<^verbatim>\<open>undefined\<close>.
  \<^verbatim>\<open>indexOf(v)\<close> is the least index of a value equal to \<^verbatim>\<open>v\<close> (value
  equality of Immutable records), and -1 when there is none. \<^verbatim>\<open>splice(index, 0, v)\<close>
  inserts \<^verbatim>\<open>v\<close> before position \<^verbatim>\<open>index\<close>; a negative index counts from
  the end, and the position is clamped to the list.
\<close>

definition takeUntil :: "('a \<Rightarrow> bool) \<Rightarrow> 'a list \<Rightarrow> 'a list" where
  "takeUntil match xs = takeWhile (\<lambda>n. \<not> match n) xs"

definition first :: "'a list \<Rightarrow> 'a option" where
  "first xs = (case xs of [] \<Rightarrow> None | x # _ \<Rightarrow> Some x)"

fun indexOf :: "'a list \<Rightarrow> 'a \<Rightarrow> int" where
  "indexOf [] v = - 1"
| "indexOf (x # xs) v =
     (if x = v then 0 else (let i = indexOf xs v in if i < 0 then - 1 else i + 1))"

definition resolveBegin :: "int \<Rightarrow> nat \<Rightarrow> nat" where
  "resolveBegin index sz =
     (if index < 0 then nat (max 0 (int sz + index)) else min sz (nat index))"

definition splice_insert :: "int \<Rightarrow> 'a \<Rightarrow> 'a list \<Rightarrow> 'a list" where
  "splice_insert index v xs =
     (let i = resolveBegin index (length xs) in take i xs @ [v] @ drop i xs)"

subsection \<open>The run grouper\<close>

lemma drop_takeUntil:
  "drop (length (takeUntil match xs)) xs = dropWhile (\<lambda>n. \<not> match n) xs"
  by (simp add: takeUntil_def dropWhile_eq_drop)

lemma restOfNodes_shorter:
  assumes "drop (length (takeUntil match nodes)) nodes \<noteq> []"
  shows "length (drop (length (takeWhile match (drop (length (takeUntil match nodes)) nodes)))
            (drop (length (takeUntil match nodes)) nodes)) < length nodes"
proof -
  let ?a = "dropWhile (\<lambda>n. \<not> match n) nodes"
  have a: "drop (length (takeUntil match nodes)) nodes = ?a" by (rule drop_takeUntil)
  from assms a have ne: "?a \<noteq> []" by simp
  then have "match (hd ?a)" using hd_dropWhile[of "\<lambda>n. \<not> match n" nodes] by simp
  with ne have "takeWhile match ?a \<noteq> []" by (cases ?a) auto
  then have "0 < length (takeWhile match ?a)" by simp
  moreover have "length ?a \<le> length nodes" by (rule length_dropWhile_le)
  moreover have "0 < length ?a" using ne by simp
  ultimately have "length ?a - length (takeWhile match ?a) < length nodes" by arith
  then show ?thesis unfolding a by (simp only: length_drop)
qed

function getSuccessiveNodes :: "'a list \<Rightarrow> ('a \<Rightarrow> bool) \<Rightarrow> 'a list list" where
  "getSuccessiveNodes nodes match =
     (let nonLines = takeUntil match nodes;
          afterNonLines = drop (length nonLines) nodes
      in if afterNonLines = [] then []
         else (let firstGroup = takeWhile match afterNonLines;
                   restOfNodes = drop (length firstGroup) afterNonLines
               in [firstGroup] @ getSuccessiveNodes restOfNodes match))"
  by pat_completeness auto
termination
proof (relation "measure (\<lambda>(nodes, match). length nodes)", goal_cases)
  case 1
  show ?case by simp
next
  case (2 nodes match nonLines afterNonLines firstGroup restOfNodes)
  then show ?case using restOfNodes_shorter[of match nodes] by (simp del: length_drop)
qed

declare getSuccessiveNodes.simps [simp del]

subsection \<open>Slate nodes\<close>

text \<open>
  A slate node is a text node (key, text, marks) or an element (document, block or inline)
  with a key, a type and an ordered list of children; a document has no type. Keys are
  issued by slate's generator, which counts upwards and hands out the decimal string of the
  counter; the model identifies a key with the counter's value.
  \<^verbatim>\<open>n.type\<close> and \<^verbatim>\<open>n.nodes\<close> are \<^verbatim>\<open>undefined\<close> on a text node
  (\<open>None\<close>); \<^verbatim>\<open>n.text\<close> of an element is the concatenation of its children's texts.
\<close>

type_synonym key = nat

datatype obj = document | block | inline

datatype node =
    Text key string "string list"
  | Elem obj key "string option" "node list"

fun node_key :: "node \<Rightarrow> key" where
  "node_key (Text k s ms) = k"
| "node_key (Elem ob k ty ns) = k"

fun node_type :: "node \<Rightarrow> string option" where
  "node_type (Text k s ms) = None"
| "node_type (Elem ob k ty ns) = ty"

fun node_nodes :: "node \<Rightarrow> node list option" where
  "node_nodes (Text k s ms) = None"
| "node_nodes (Elem ob k ty ns) = Some ns"

fun node_text :: "node \<Rightarrow> string" where
  "node_text (Text k s ms) = s"
| "node_text (Elem ob k ty ns) = concat (map node_text ns)"

fun node_marks :: "node \<Rightarrow> string list" where
  "node_marks (Text k s ms) = ms"
| "node_marks (Elem ob k ty ns) = concat (map node_marks ns)"

fun set_key :: "key \<Rightarrow> node \<Rightarrow> node" where
  "set_key k' (Text k s ms) = Text k' s ms"
| "set_key k' (Elem ob k ty ns) = Elem ob k' ty ns"

fun all_keys :: "node \<Rightarrow> key list" where
  "all_keys (Text k s ms) = [k]"
| "all_keys (Elem ob k ty ns) = k # concat (map all_keys ns)"

subsection \<open>The document tree, addressed by key\<close>

text \<open>
  Slate resolves a key to the path of the node that carries it and then works on that path.
  Keys are unique in a slate document (slate warns about a duplicate), so the model works on
  the key directly: \<open>getNode\<close> and \<open>getParent\<close> search the tree in document order,
  \<open>insertNode\<close> splices a node into the children of the element with the given key, and
  \<open>removeNode\<close> deletes the child with the given key.
\<close>

fun first_some :: "'a option list \<Rightarrow> 'a option" where
  "first_some [] = None"
| "first_some (None # xs) = first_some xs"
| "first_some (Some x # xs) = Some x"

fun getNode :: "key \<Rightarrow> node \<Rightarrow> node option" where
  "getNode k (Text k' s ms) = (if k' = k then Some (Text k' s ms) else None)"
| "getNode k (Elem ob k' ty ns) =
     (if k' = k then Some (Elem ob k' ty ns) else first_some (map (getNode k) ns))"

fun getParent :: "key \<Rightarrow> node \<Rightarrow> node option" where
  "getParent k (Text k' s ms) = None"
| "getParent k (Elem ob k' ty ns) =
     (if k \<in> set (map node_key ns) then Some (Elem ob k' ty ns)
      else first_some (map (getParent k) ns))"

fun insertNode :: "key \<Rightarrow> int \<Rightarrow> node \<Rightarrow> node \<Rightarrow> node" where
  "insertNode pk index n (Text k s ms) = Text k s ms"
| "insertNode pk index n (Elem ob k ty ns) =
     (if k = pk then Elem ob k ty (splice_insert index n ns)
      else Elem ob k ty (map (insertNode pk index n) ns))"

fun removeNode :: "key \<Rightarrow> node \<Rightarrow> node" where
  "removeNode k (Text k' s ms) = Text k' s ms"
| "removeNode k (Elem ob k' ty ns) =
     Elem ob k' ty (map (removeNode k) (filter (\<lambda>c. node_key c \<noteq> k) ns))"

subsection \<open>The editor\<close>

text \<open>
  The editor holds the document, the state of the key generator, and the list of the commands
  it was given so far, oldest first. Entering and leaving a \<^verbatim>\<open>withoutNormalizing\<close>
  scope are recorded in that list too; when and how slate normalizes is not modelled. A
  command on a key that the document does not have throws (\<open>Error\<close>, from slate's
  \<^verbatim>\<open>assertPath\<close>); reading a property of \<^verbatim>\<open>null\<close> or
  \<^verbatim>\<open>undefined\<close> throws a \<open>TypeError\<close>. A function that can throw returns
  \<open>Inl\<close> of the exception or \<open>Inr\<close> of its result.

  \<^verbatim>\<open>KeyUtils.create\<close> hands out the generator's state and advances it;
  \<^verbatim>\<open>Block.create\<close> draws a key for the block it makes, and
  \<^verbatim>\<open>regenerateKey\<close> draws another one. \<^verbatim>\<open>moveNodeByKey\<close> takes the node
  out of the document and inserts it under the new parent, which is looked up by its key
  after the removal (slate adjusts the parent's path for the removal); moving a node under
  itself does nothing.
\<close>

datatype exn = TypeError | Error

datatype command =
    InsertNodeByKey key int node
  | RemoveNodeByKey key
  | MoveNodeByKey key key int
  | EnterWithoutNormalizing
  | LeaveWithoutNormalizing

record editor =
  doc :: node
  next_key :: key
  commands :: "command list"

definition issue :: "command \<Rightarrow> editor \<Rightarrow> editor" where
  "issue c e = e\<lparr>commands := commands e @ [c]\<rparr>"

definition create_key :: "editor \<Rightarrow> key \<times> editor" where
  "create_key e = (next_key e, e\<lparr>next_key := Suc (next_key e)\<rparr>)"

definition regenerateKey :: "node \<Rightarrow> editor \<Rightarrow> node \<times> editor" where
  "regenerateKey n e = (let (k, e') = create_key e in (set_key k n, e'))"

definition Block_create :: "string \<Rightarrow> node list \<Rightarrow> editor \<Rightarrow> node \<times> editor" where
  "Block_create ty ns e = (let (k, e') = create_key e in (Elem block k (Some ty) ns, e'))"

definition insertNodeByKey :: "key \<Rightarrow> int \<Rightarrow> node \<Rightarrow> editor \<Rightarrow> exn + editor" where
  "insertNodeByKey pk index n e =
     (case getNode pk (doc e) of
        None \<Rightarrow> Inl Error
      | Some (Text k s ms) \<Rightarrow> Inl TypeError
      | Some (Elem ob k ty ns) \<Rightarrow>
          Inr (issue (InsertNodeByKey pk index n) (e\<lparr>doc := insertNode pk index n (doc e)\<rparr>)))"

definition removeNodeByKey :: "key \<Rightarrow> editor \<Rightarrow> exn + editor" where
  "removeNodeByKey k e =
     (if getNode k (doc e) = None \<or> k = node_key (doc e) then Inl Error
      else Inr (issue (RemoveNodeByKey k) (e\<lparr>doc := removeNode k (doc e)\<rparr>)))"

definition moveNodeByKey :: "key \<Rightarrow> key \<Rightarrow> int \<Rightarrow> editor \<Rightarrow> exn + editor" where
  "moveNodeByKey k pk index e =
     (case getNode k (doc e) of
        None \<Rightarrow> Inl Error
      | Some n \<Rightarrow>
          (case getNode pk (doc e) of
             None \<Rightarrow> Inl Error
           | Some p \<Rightarrow>
               if k = pk then Inr (issue (MoveNodeByKey k pk index) e)
               else if k = node_key (doc e) then Inl Error
               else (let d = removeNode k (doc e) in
                 case getNode pk d of
                   None \<Rightarrow> Inl Error
                 | Some (Text k' s ms) \<Rightarrow> Inl TypeError
                 | Some (Elem ob k' ty ns) \<Rightarrow>
                     Inr (issue (MoveNodeByKey k pk index) (e\<lparr>doc := insertNode pk index n d\<rparr>)))))"

definition withoutNormalizing :: "(editor \<Rightarrow> exn + editor) \<Rightarrow> editor \<Rightarrow> exn + editor" where
  "withoutNormalizing fn e =
     (case fn (issue EnterWithoutNormalizing e) of
        Inl x \<Rightarrow> Inl x
      | Inr e' \<Rightarrow> Inr (issue LeaveWithoutNormalizing e'))"

subsection \<open>Options, violations and the reparse collaborator\<close>

text \<open>
  \<^verbatim>\<open>deserializeCode\<close> is imported from \<^verbatim>\<open>lib/utils\<close>; the repairs take it as
  a parameter: from the options, the text and the state of the key generator it returns a
  node (whose \<^verbatim>\<open>nodes\<close> are the new lines) and the new state of the key generator. A violation report carries its code, the offending node and, for the
  parent rules, the parent. The codes are the string constants of the package
  \<^verbatim>\<open>slate-schema-violations\<close>.
\<close>

record options =
  containerType :: string
  lineType :: string
  allowMarks :: bool

record slate_error =
  code :: string
  node :: node
  parent :: "node option"

type_synonym deserializer = "options \<Rightarrow> string \<Rightarrow> key \<Rightarrow> node \<times> key"

datatype retval = ReturnsEditor | ReturnsUndefined

definition CHILD_OBJECT_INVALID :: string where
  "CHILD_OBJECT_INVALID = ''child_object_invalid''"

definition CHILD_TYPE_INVALID :: string where
  "CHILD_TYPE_INVALID = ''child_type_invalid''"

definition PARENT_OBJECT_INVALID :: string where
  "PARENT_OBJECT_INVALID = ''parent_object_invalid''"

definition PARENT_TYPE_INVALID :: string where
  "PARENT_TYPE_INVALID = ''parent_type_invalid''"

subsection \<open>onlyLine: a container holds only lines\<close>

text \<open>
  \<open>insertCodeLines\<close> is the \<^verbatim>\<open>forEach\<close> over \<^verbatim>\<open>codeLines\<close> (with its
  index) in the first \<^verbatim>\<open>withoutNormalizing\<close>, \<open>removeNodes\<close> the
  \<^verbatim>\<open>forEach\<close> in the second, \<open>relineGroup\<close> the body of the \<^verbatim>\<open>forEach\<close> over
  the groups and \<open>relineGroups\<close> that loop. (Immutable's \<^verbatim>\<open>forEach\<close> stops when
  the callback returns \<^verbatim>\<open>false\<close>; none of the callbacks here does.) The parent of the
  group's first node is looked up in the editor's document for every group.
\<close>

definition isNotLine :: "options \<Rightarrow> node \<Rightarrow> bool" where
  "isNotLine opts n = (node_type n \<noteq> Some (lineType opts))"

fun insertCodeLines :: "key \<Rightarrow> int \<Rightarrow> node list \<Rightarrow> int \<Rightarrow> editor \<Rightarrow> exn + editor" where
  "insertCodeLines pk invalidNodeIndex [] index e = Inr e"
| "insertCodeLines pk invalidNodeIndex (codeLine # codeLines) index e =
     (let (n, e1) = regenerateKey codeLine e
      in case insertNodeByKey pk (invalidNodeIndex + index) n e1 of
           Inl x \<Rightarrow> Inl x
         | Inr e2 \<Rightarrow> insertCodeLines pk invalidNodeIndex codeLines (index + 1) e2)"

fun removeNodes :: "node list \<Rightarrow> editor \<Rightarrow> exn + editor" where
  "removeNodes [] e = Inr e"
| "removeNodes (n # ns) e =
     (case removeNodeByKey (node_key n) e of
        Inl x \<Rightarrow> Inl x
      | Inr e1 \<Rightarrow> removeNodes ns e1)"

definition relineGroup :: "deserializer \<Rightarrow> options \<Rightarrow> node list \<Rightarrow> editor \<Rightarrow> exn + editor" where
  "relineGroup deserializeCode opts nonLineGroup e =
     (let text = concat (map node_text nonLineGroup);
          (code_block, nk) = deserializeCode opts text (next_key e);
          e0 = e\<lparr>next_key := nk\<rparr>
      in case first nonLineGroup of
           None \<Rightarrow> Inl TypeError
         | Some fst_node \<Rightarrow>
             (case getParent (node_key fst_node) (doc e0) of
                None \<Rightarrow> Inl TypeError
              | Some par \<Rightarrow>
                  (case node_nodes par of
                     None \<Rightarrow> Inl TypeError
                   | Some pns \<Rightarrow>
                       (let invalidNodeIndex = indexOf pns fst_node
                        in case node_nodes code_block of
                             None \<Rightarrow> Inl TypeError
                           | Some codeLines \<Rightarrow>
                               (case withoutNormalizing
                                       (insertCodeLines (node_key par) invalidNodeIndex codeLines 0) e0 of
                                  Inl x \<Rightarrow> Inl x
                                | Inr e1 \<Rightarrow> withoutNormalizing (removeNodes nonLineGroup) e1)))))"

fun relineGroups :: "deserializer \<Rightarrow> options \<Rightarrow> node list list \<Rightarrow> editor \<Rightarrow> exn + editor" where
  "relineGroups deserializeCode opts [] e = Inr e"
| "relineGroups deserializeCode opts (nonLineGroup # groups) e =
     (case relineGroup deserializeCode opts nonLineGroup e of
        Inl x \<Rightarrow> Inl x
      | Inr e1 \<Rightarrow> relineGroups deserializeCode opts groups e1)"

definition onlyLine ::
  "deserializer \<Rightarrow> options \<Rightarrow> editor \<Rightarrow> slate_error \<Rightarrow> exn + retval \<times> editor" where
  "onlyLine deserializeCode opts e error =
     (case node_nodes (node error) of
        None \<Rightarrow> Inl TypeError
      | Some ns \<Rightarrow>
          (let nonLineGroups = getSuccessiveNodes ns (isNotLine opts)
           in case relineGroups deserializeCode opts
                     (filter (\<lambda>g. g \<noteq> []) nonLineGroups) e of
                Inl x \<Rightarrow> Inl x
              | Inr e' \<Rightarrow> Inr (ReturnsEditor, e')))"

subsection \<open>noOrphanLine: lines live in a container\<close>

text \<open>
  \<open>moveLines\<close> is the inner \<^verbatim>\<open>forEach\<close> (with its index), \<open>wrapGroup\<close> the
  body of the \<^verbatim>\<open>forEach\<close> over the groups and \<open>wrapGroups\<close> that loop. \<open>par\<close>
  and \<open>pns\<close> are \<^verbatim>\<open>error.parent\<close> and its \<^verbatim>\<open>nodes\<close>:
  \<^verbatim>\<open>firstLineIndex\<close> is looked up there for every group. The function has no
  \<^verbatim>\<open>return\<close>, so it returns \<^verbatim>\<open>undefined\<close>.
\<close>

definition isLine :: "options \<Rightarrow> node \<Rightarrow> bool" where
  "isLine opts n = (node_type n = Some (lineType opts))"

fun moveLines :: "key \<Rightarrow> node list \<Rightarrow> int \<Rightarrow> editor \<Rightarrow> exn + editor" where
  "moveLines ck [] index e = Inr e"
| "moveLines ck (line # lines) index e =
     (case moveNodeByKey (node_key line) ck index e of
        Inl x \<Rightarrow> Inl x
      | Inr e1 \<Rightarrow> moveLines ck lines (index + 1) e1)"

definition wrapGroup :: "options \<Rightarrow> node \<Rightarrow> node list \<Rightarrow> node list \<Rightarrow> editor \<Rightarrow> exn + editor" where
  "wrapGroup opts par pns lineGroup e =
     (let (created, e0) = Block_create (containerType opts) [] e;
          (container, e1) = regenerateKey created e0;
          firstLineIndex = (case first lineGroup of None \<Rightarrow> - 1 | Some l \<Rightarrow> indexOf pns l)
      in case insertNodeByKey (node_key par) firstLineIndex container e1 of
           Inl x \<Rightarrow> Inl x
         | Inr e2 \<Rightarrow> moveLines (node_key container) lineGroup 0 e2)"

fun wrapGroups :: "options \<Rightarrow> node \<Rightarrow> node list \<Rightarrow> node list list \<Rightarrow> editor \<Rightarrow> exn + editor" where
  "wrapGroups opts par pns [] e = Inr e"
| "wrapGroups opts par pns (lineGroup # groups) e =
     (case wrapGroup opts par pns lineGroup e of
        Inl x \<Rightarrow> Inl x
      | Inr e1 \<Rightarrow> wrapGroups opts par pns groups e1)"

definition noOrphanLine :: "options \<Rightarrow> editor \<Rightarrow> slate_error \<Rightarrow> exn + retval \<times> editor" where
  "noOrphanLine opts e error =
     (case parent error of
        None \<Rightarrow> Inl TypeError
      | Some par \<Rightarrow>
          (case node_nodes par of
             None \<Rightarrow> Inl TypeError
           | Some pns \<Rightarrow>
               (let linesGroup = getSuccessiveNodes pns (isLine opts)
                in case withoutNormalizing (wrapGroups opts par pns linesGroup) e of
                     Inl x \<Rightarrow> Inl x
                   | Inr e' \<Rightarrow> Inr (ReturnsUndefined, e'))))"

subsection \<open>The schema\<close>

text \<open>
  A rule of the schema lists what its children must match (\<^verbatim>\<open>nodes\<close>), what its parent
  must match (\<^verbatim>\<open>parent\<close>), which marks it allows (\<^verbatim>\<open>marks\<close>; an undeclared
  property is \<open>None\<close>, and the empty list allows no mark) and its \<^verbatim>\<open>normalize\<close>
  handler. \<^verbatim>\<open>blocks\<close> is an object keyed by block type: the property written last wins
  when two keys coincide.
\<close>

record match_obj =
  match_object :: "string option"
  match_type :: "string option"
  match_min :: "nat option"

record rule =
  rule_nodes :: "match_obj list list"
  rule_parent :: "match_obj option"
  rule_marks :: "match_obj list option"
  normalize :: "editor \<Rightarrow> slate_error \<Rightarrow> exn + retval \<times> editor"

record schema_def =
  blocks :: "string \<rightharpoonup> rule"

definition container_normalize ::
  "deserializer \<Rightarrow> options \<Rightarrow> editor \<Rightarrow> slate_error \<Rightarrow> exn + retval \<times> editor" where
  "container_normalize deserializeCode opts e error =
     (if code error = CHILD_OBJECT_INVALID \<or> code error = CHILD_TYPE_INVALID
      then onlyLine deserializeCode opts e error
      else Inr (ReturnsUndefined, e))"

definition line_normalize :: "options \<Rightarrow> editor \<Rightarrow> slate_error \<Rightarrow> exn + retval \<times> editor" where
  "line_normalize opts e error =
     (if code error = PARENT_OBJECT_INVALID \<or> code error = PARENT_TYPE_INVALID
      then noOrphanLine opts e error
      else Inr (ReturnsUndefined, e))"

definition schema :: "deserializer \<Rightarrow> options \<Rightarrow> schema_def" where
  "schema deserializeCode opts =
     (let container_rule =
            \<lparr>rule_nodes = [[\<lparr>match_object = None, match_type = Some (lineType opts), match_min = None\<rparr>]],
             rule_parent = None,
             rule_marks = None,
             normalize = container_normalize deserializeCode opts\<rparr>;
          line_rule =
            \<lparr>rule_nodes = [[\<lparr>match_object = Some ''text'', match_type = None, match_min = Some 1\<rparr>]],
             rule_parent =
               Some \<lparr>match_object = None, match_type = Some (containerType opts), match_min = None\<rparr>,
             rule_marks = None,
             normalize = line_normalize opts\<rparr>;
          baseSchema = \<lparr>blocks = [containerType opts \<mapsto> container_rule, lineType opts \<mapsto> line_rule]\<rparr>
      in if \<not> allowMarks opts
         then baseSchema\<lparr>blocks := (blocks baseSchema)(lineType opts \<mapsto>
                (the (blocks baseSchema (lineType opts)))\<lparr>rule_marks := Some []\<rparr>)\<rparr>
         else baseSchema)"

section \<open>Definitions for the statements about the repairs\<close>

subsection \<open>A node in its document\<close>

text \<open>
  A context is a document with a hole: \<open>plug C n\<close> is the document that has the node \<open>n\<close> in
  the place of the hole. \<open>ctx_keys\<close> lists the keys outside the hole and \<open>keys_of\<close> the keys
  of a list of nodes with all their descendants. They serve to say that a repair changes the
  children of one node and nothing else.
\<close>

datatype ctx = Hole | Down obj key "string option" "node list" ctx "node list"

fun plug :: "ctx \<Rightarrow> node \<Rightarrow> node" where
  "plug Hole n = n"
| "plug (Down ob k ty l C r) n = Elem ob k ty (l @ plug C n # r)"

definition keys_of :: "node list \<Rightarrow> key list" where
  "keys_of ns = concat (map all_keys ns)"

fun ctx_keys :: "ctx \<Rightarrow> key list" where
  "ctx_keys Hole = []"
| "ctx_keys (Down ob k ty l C r) = k # keys_of l @ ctx_keys C @ keys_of r"

subsection \<open>The outcome of onlyLine, following the specification\<close>

text \<open>
  The specification describes the repaired container from left to right: a line child stays; a
  maximal run of non-line children is replaced by the lines that the reparse collaborator
  derives from the concatenated text of the run, each with a fresh key. \<open>textToLines\<close> is the
  collaborator as the specification names it (the \<^verbatim>\<open>nodes\<close> of what
  \<^verbatim>\<open>deserializeCode\<close> returns), \<open>regenerateKeys\<close> gives consecutive new keys to a list
  of lines, \<open>relined\<close> is the described child sequence, and \<open>reline_commands\<close> the described
  sequence of commands, where \<open>pos\<close> is the position the walk has reached in the container as
  it is at that moment.
\<close>

fun regenerateKeys :: "key \<Rightarrow> node list \<Rightarrow> node list" where
  "regenerateKeys nk [] = []"
| "regenerateKeys nk (c # cs) = set_key nk c # regenerateKeys (Suc nk) cs"

fun insert_commands :: "key \<Rightarrow> int \<Rightarrow> node list \<Rightarrow> command list" where
  "insert_commands pk i [] = []"
| "insert_commands pk i (n # ns) = InsertNodeByKey pk i n # insert_commands pk (i + 1) ns"

definition remove_commands :: "node list \<Rightarrow> command list" where
  "remove_commands ns = map (\<lambda>n. RemoveNodeByKey (node_key n)) ns"

definition textToLines :: "deserializer \<Rightarrow> options \<Rightarrow> string \<Rightarrow> key \<Rightarrow> node list \<times> key" where
  "textToLines deserializeCode opts text nk =
     (let (code_block, nk') = deserializeCode opts text nk
      in (case node_nodes code_block of None \<Rightarrow> [] | Some ls \<Rightarrow> ls, nk'))"

text \<open>
  \<open>fresh_keys\<close> says that the reparse collaborator works with the key generator: the nodes it
  returns carry keys it drew from the generator, each once, and it returns an element (a
  node with \<^verbatim>\<open>nodes\<close>).
\<close>

definition fresh_keys :: "deserializer \<Rightarrow> options \<Rightarrow> bool" where
  "fresh_keys deserializeCode opts \<longleftrightarrow>
     (\<forall>text nk. case deserializeCode opts text nk of
        (code_block, nk') \<Rightarrow>
          nk \<le> nk' \<and>
          (\<exists>ls. node_nodes code_block = Some ls \<and> distinct (keys_of ls) \<and>
             (\<forall>k\<in>set (keys_of ls). nk \<le> k \<and> k < nk')))"

function relined :: "deserializer \<Rightarrow> options \<Rightarrow> node list \<Rightarrow> key \<Rightarrow> node list" where
  "relined deserializeCode opts [] nk = []"
| "relined deserializeCode opts (c # cs) nk =
     (if isNotLine opts c
      then (let run = c # takeWhile (isNotLine opts) cs;
                (ls, nk1) = textToLines deserializeCode opts (concat (map node_text run)) nk
            in regenerateKeys nk1 ls @
               relined deserializeCode opts (dropWhile (isNotLine opts) cs) (nk1 + length ls))
      else c # relined deserializeCode opts cs nk)"
  by pat_completeness auto
termination
  by (relation "measure (\<lambda>(deserializeCode, opts, cs, nk). length cs)")
    (auto simp: le_imp_less_Suc length_dropWhile_le)

function reline_commands ::
  "deserializer \<Rightarrow> options \<Rightarrow> key \<Rightarrow> int \<Rightarrow> node list \<Rightarrow> key \<Rightarrow> command list" where
  "reline_commands deserializeCode opts ck pos [] nk = []"
| "reline_commands deserializeCode opts ck pos (c # cs) nk =
     (if isNotLine opts c
      then (let run = c # takeWhile (isNotLine opts) cs;
                (ls, nk1) = textToLines deserializeCode opts (concat (map node_text run)) nk
            in [EnterWithoutNormalizing] @ insert_commands ck pos (regenerateKeys nk1 ls) @
               [LeaveWithoutNormalizing, EnterWithoutNormalizing] @ remove_commands run @
               [LeaveWithoutNormalizing] @
               reline_commands deserializeCode opts ck (pos + int (length ls))
                 (dropWhile (isNotLine opts) cs) (nk1 + length ls))
      else reline_commands deserializeCode opts ck (pos + 1) cs nk)"
  by pat_completeness auto
termination
  by (relation "measure (\<lambda>(deserializeCode, opts, ck, pos, cs, nk). length cs)")
    (auto simp: le_imp_less_Suc length_dropWhile_le)

text \<open>
  \<open>wf_focus\<close>: the keys of the document around and in the singled-out node are unique and
  below the state of the key generator.
\<close>

definition wf_focus :: "ctx \<Rightarrow> key \<Rightarrow> node list \<Rightarrow> key \<Rightarrow> bool" where
  "wf_focus C ck cs nk \<longleftrightarrow>
     distinct (ctx_keys C @ ck # keys_of cs) \<and>
     (\<forall>k\<in>set (ctx_keys C @ ck # keys_of cs). k < nk)"

subsection \<open>A stand-in for deserializeCode in the worked examples\<close>

text \<open>
  The worked examples need some reparse collaborator. This one puts the whole text into a
  single line of the line type, inside a block of the container type, and draws three keys.
\<close>

definition sample_deserializeCode :: deserializer where
  "sample_deserializeCode opts text nk =
     (Elem block nk (Some (containerType opts))
        [Elem block (nk + 1) (Some (lineType opts)) [Text (nk + 2) text []]],
      nk + 3)"

subsection \<open>Reading the list of commands\<close>

text \<open>
  \<open>new_commands e e'\<close> are the commands issued between the editor states \<open>e\<close> and \<open>e'\<close>,
  and \<open>inserted_node\<close> is the node an insert command carries. \<open>is_new_container\<close> describes
  the block that \<open>noOrphanLine\<close> creates, \<open>is_regenerated_line\<close> a line that the reparse
  collaborator returned, with a new key and its marks unchanged.
\<close>

fun inserted_node :: "command \<Rightarrow> node option" where
  "inserted_node (InsertNodeByKey pk i n) = Some n"
| "inserted_node (RemoveNodeByKey k) = None"
| "inserted_node (MoveNodeByKey k pk i) = None"
| "inserted_node EnterWithoutNormalizing = None"
| "inserted_node LeaveWithoutNormalizing = None"

definition new_commands :: "editor \<Rightarrow> editor \<Rightarrow> command list" where
  "new_commands e e' = drop (length (commands e)) (commands e')"

definition is_new_container :: "options \<Rightarrow> node \<Rightarrow> bool" where
  "is_new_container opts n \<longleftrightarrow>
     node_marks n = [] \<and> node_nodes n = Some [] \<and> node_type n = Some (containerType opts)"

definition is_regenerated_line :: "deserializer \<Rightarrow> options \<Rightarrow> node \<Rightarrow> bool" where
  "is_regenerated_line deserializeCode opts n \<longleftrightarrow>
     (\<exists>text nk l. l \<in> set (fst (textToLines deserializeCode opts text nk)) \<and>
        n = set_key (node_key n) l \<and> node_marks n = node_marks l)"

subsection \<open>A child of the singled-out node\<close>

text \<open>
  \<open>extend C ob pk ty A B\<close> is the context of a child of the node singled out by \<open>C\<close>:
  the child stands between the siblings \<open>A\<close> and \<open>B\<close> under the element \<open>ob pk ty\<close>.
\<close>

fun extend :: "ctx \<Rightarrow> obj \<Rightarrow> key \<Rightarrow> string option \<Rightarrow> node list \<Rightarrow> node list \<Rightarrow> ctx" where
  "extend Hole ob pk ty A B = Down ob pk ty A Hole B"
| "extend (Down ob' k ty' l C r) ob pk ty A B = Down ob' k ty' l (extend C ob pk ty A B) r"

section \<open>Properties\<close>

subsection \<open>The run grouper\<close>

text \<open>
  The defining equation of \<open>getSuccessiveNodes\<close> unfolds forever under the simplifier; the
  two equations below walk the list instead.
\<close>

lemma getSuccessiveNodes_Nil: "getSuccessiveNodes [] match = []"
  by (simp add: getSuccessiveNodes.simps[of "[]"] takeUntil_def)

lemma getSuccessiveNodes_Cons:
  "getSuccessiveNodes (x # xs) match =
     (if match x then (x # takeWhile match xs) # getSuccessiveNodes (dropWhile match xs) match
      else getSuccessiveNodes xs match)"
proof (cases "match x")
  case True
  then show ?thesis
    by (simp add: getSuccessiveNodes.simps[of "x # xs"] takeUntil_def dropWhile_eq_drop)
next
  case False
  then show ?thesis
    by (simp add: getSuccessiveNodes.simps[of "x # xs"] getSuccessiveNodes.simps[of xs]
        takeUntil_def Let_def)
qed

lemma concat_getSuccessiveNodes: "concat (getSuccessiveNodes xs match) = filter match xs"
proof (induction xs rule: length_induct)
  case (1 xs)
  show ?case
  proof (cases xs)
    case Nil
    then show ?thesis by (simp add: getSuccessiveNodes_Nil)
  next
    case (Cons x ys)
    show ?thesis
    proof (cases "match x")
      case True
      have "length (dropWhile match ys) < length xs"
        using Cons length_dropWhile_le[of match ys] by simp
      with 1 have "concat (getSuccessiveNodes (dropWhile match ys) match) = filter match (dropWhile match ys)"
        by blast
      moreover have "filter match ys = takeWhile match ys @ filter match (dropWhile match ys)"
      proof -
        have "filter match (takeWhile match ys) = takeWhile match ys"
          by (induction ys) auto
        then show ?thesis
          by (metis filter_append takeWhile_dropWhile_id)
      qed
      ultimately show ?thesis using Cons True by (simp add: getSuccessiveNodes_Cons)
    next
      case False
      with 1 Cons show ?thesis by (simp add: getSuccessiveNodes_Cons)
    qed
  qed
qed

lemma getSuccessiveNodes_groups:
  "g \<in> set (getSuccessiveNodes xs match) \<Longrightarrow> g \<noteq> [] \<and> (\<exists>pre post. xs = pre @ g @ post)"
proof (induction xs arbitrary: g rule: length_induct)
  case (1 xs)
  show ?case
  proof (cases xs)
    case Nil
    with 1 show ?thesis by (simp add: getSuccessiveNodes_Nil)
  next
    case (Cons x ys)
    show ?thesis
    proof (cases "match x")
      case True
      with 1(2) Cons consider "g = x # takeWhile match ys"
        | "g \<in> set (getSuccessiveNodes (dropWhile match ys) match)"
        by (auto simp: getSuccessiveNodes_Cons)
      then show ?thesis
      proof cases
        case 1
        have "xs = [] @ g @ dropWhile match ys" using 1 Cons by simp
        with 1 show ?thesis by blast
      next
        case 2
        have "length (dropWhile match ys) < length xs"
          using Cons length_dropWhile_le[of match ys] by simp
        with "1.IH" 2 obtain pre post where g: "g \<noteq> []" "dropWhile match ys = pre @ g @ post"
          by blast
        have "xs = (x # takeWhile match ys @ pre) @ g @ post"
          using Cons g(2) takeWhile_dropWhile_id[of match ys] by (metis append_Cons append_assoc)
        with g(1) show ?thesis by blast
      qed
    next
      case False
      with 1(2) Cons have "g \<in> set (getSuccessiveNodes ys match)"
        by (simp add: getSuccessiveNodes_Cons)
      with "1.IH" Cons obtain pre post where g: "g \<noteq> []" "ys = pre @ g @ post" by force
      then have "xs = (x # pre) @ g @ post" using Cons by simp
      with g(1) show ?thesis by blast
    qed
  qed
qed

lemma getSuccessiveNodes_none: "\<forall>x\<in>set xs. \<not> match x \<Longrightarrow> getSuccessiveNodes xs match = []"
  by (induction xs) (simp_all add: getSuccessiveNodes_Nil getSuccessiveNodes_Cons)

text \<open>
  C1. For every list of nodes and every predicate, the concatenation of the groups that
  \<open>getSuccessiveNodes\<close> returns is the list of the nodes that satisfy the predicate, in
  their order; every group is non-empty and is a contiguous segment of the input; and an empty
  input, or one with no node that satisfies the predicate, gives no group.
\<close>

theorem grouper_correct:
  "concat (getSuccessiveNodes nodes match) = filter match nodes \<and>
   (\<forall>g \<in> set (getSuccessiveNodes nodes match). g \<noteq> [] \<and> (\<exists>pre post. nodes = pre @ g @ post)) \<and>
   (nodes = [] \<longrightarrow> getSuccessiveNodes nodes match = []) \<and>
   ((\<forall>n \<in> set nodes. \<not> match n) \<longrightarrow> getSuccessiveNodes nodes match = [])"
  using concat_getSuccessiveNodes[of nodes match] getSuccessiveNodes_groups[of _ nodes match]
    getSuccessiveNodes_none[of nodes match]
  by (auto simp: getSuccessiveNodes_Nil)

theorem grouper_correct_witness:
  "getSuccessiveNodes [3, 2, 4, 5, 6, 7 :: nat] even = [[2, 4], [6]] \<and>
   concat (getSuccessiveNodes [3, 2, 4, 5, 6, 7 :: nat] even) = [2, 4, 6] \<and>
   [6] \<in> set (getSuccessiveNodes [3, 2, 4, 5, 6, 7 :: nat] even) \<and>
   (\<exists>pre post. [3, 2, 4, 5, 6, 7 :: nat] = pre @ [6] @ post) \<and>
   getSuccessiveNodes [3, 5 :: nat] even = []"
proof -
  have ev: "getSuccessiveNodes [3, 2, 4, 5, 6, 7 :: nat] even = [[2, 4], [6]]"
    by (simp add: getSuccessiveNodes_Nil getSuccessiveNodes_Cons)
  have mem: "[6] \<in> set (getSuccessiveNodes [3, 2, 4, 5, 6, 7 :: nat] even)"
    by (simp add: ev)
  have none: "\<forall>n \<in> set [3, 5 :: nat]. \<not> even n" by simp
  from grouper_correct[of "[3, 2, 4, 5, 6, 7 :: nat]" even] mem
  have "\<exists>pre post. [3, 2, 4, 5, 6, 7 :: nat] = pre @ [6] @ post" by blast
  moreover from grouper_correct[of "[3, 5 :: nat]" even] none
  have "getSuccessiveNodes [3, 5 :: nat] even = []" by blast
  moreover have "concat (getSuccessiveNodes [3, 2, 4, 5, 6, 7 :: nat] even) = [2, 4, 6]"
    using grouper_correct[of "[3, 2, 4, 5, 6, 7 :: nat]" even] by simp
  ultimately show ?thesis using ev mem by blast
qed

subsection \<open>The schema and its dispatch\<close>

lemma schema_line_rule:
  "blocks (schema deserializeCode opts) (lineType opts) =
     Some \<lparr>rule_nodes = [[\<lparr>match_object = Some ''text'', match_type = None, match_min = Some 1\<rparr>]],
           rule_parent =
             Some \<lparr>match_object = None, match_type = Some (containerType opts), match_min = None\<rparr>,
           rule_marks = (if allowMarks opts then None else Some []),
           normalize = line_normalize opts\<rparr>"
  by (simp add: schema_def Let_def)

lemma schema_container_rule:
  "containerType opts \<noteq> lineType opts \<Longrightarrow>
   blocks (schema deserializeCode opts) (containerType opts) =
     Some \<lparr>rule_nodes = [[\<lparr>match_object = None, match_type = Some (lineType opts), match_min = None\<rparr>]],
           rule_parent = None,
           rule_marks = None,
           normalize = container_normalize deserializeCode opts\<rparr>"
  by (simp add: schema_def Let_def)

text \<open>
  C6. The handler of the container rule sends the codes child-type-invalid and
  child-object-invalid to \<open>onlyLine\<close>, the handler of the line rule sends parent-type-invalid
  and parent-object-invalid to \<open>noOrphanLine\<close>, and on every other code a handler returns
  \<^verbatim>\<open>undefined\<close> and leaves the editor as it was. (The container rule is the entry of
  \<open>blocks\<close> at the container type when that type differs from the line type.)
\<close>

theorem schema_dispatch:
  "(containerType opts \<noteq> lineType opts \<longrightarrow>
      (\<exists>r. blocks (schema deserializeCode opts) (containerType opts) = Some r \<and>
        (\<forall>e error. normalize r e error =
           (if code error = CHILD_TYPE_INVALID \<or> code error = CHILD_OBJECT_INVALID
            then onlyLine deserializeCode opts e error
            else Inr (ReturnsUndefined, e))))) \<and>
   (\<exists>r. blocks (schema deserializeCode opts) (lineType opts) = Some r \<and>
      (\<forall>e error. normalize r e error =
         (if code error = PARENT_TYPE_INVALID \<or> code error = PARENT_OBJECT_INVALID
          then noOrphanLine opts e error
          else Inr (ReturnsUndefined, e))))"
  by (auto simp: schema_line_rule schema_container_rule container_normalize_def
      line_normalize_def)

theorem schema_dispatch_witness:
  "''code_block'' \<noteq> ''code_line'' \<and>
   (\<exists>r. blocks (schema (\<lambda>opts text nk. (Text nk text [], nk))
            \<lparr>containerType = ''code_block'', lineType = ''code_line'', allowMarks = False\<rparr>)
          ''code_block'' = Some r \<and>
      normalize r \<lparr>doc = Elem document 0 None [], next_key = 1, commands = []\<rparr>
          \<lparr>code = ''node_mark_invalid'', node = Elem document 0 None [], parent = None\<rparr> =
        Inr (ReturnsUndefined, \<lparr>doc = Elem document 0 None [], next_key = 1, commands = []\<rparr>))"
proof -
  let ?opts = "\<lparr>containerType = ''code_block'', lineType = ''code_line'', allowMarks = False\<rparr>"
  let ?dc = "\<lambda>(opts :: options) text nk. (Text nk text [], nk :: key)"
  let ?e = "\<lparr>doc = Elem document 0 None [], next_key = 1, commands = []\<rparr>"
  let ?err = "\<lparr>code = ''node_mark_invalid'', node = Elem document 0 None [], parent = None\<rparr>"
  have ne: "containerType ?opts \<noteq> lineType ?opts" by simp
  with schema_dispatch[of ?opts ?dc] obtain r where
    r: "blocks (schema ?dc ?opts) (containerType ?opts) = Some r"
       "\<forall>e error. normalize r e error =
           (if code error = CHILD_TYPE_INVALID \<or> code error = CHILD_OBJECT_INVALID
            then onlyLine ?dc ?opts e error
            else Inr (ReturnsUndefined, e))"
    by blast
  from r(2) have "normalize r ?e ?err = Inr (ReturnsUndefined, ?e)"
    by (simp add: CHILD_TYPE_INVALID_def CHILD_OBJECT_INVALID_def)
  with r(1) show ?thesis by simp
qed

subsection \<open>Repairs on a valid tree\<close>

lemma onlyLine_all_lines:
  assumes "node_nodes (node error) = Some cs" and "\<forall>c\<in>set cs. isLine opts c"
  shows "onlyLine deserializeCode opts e error = Inr (ReturnsEditor, e)"
proof -
  have "\<forall>c\<in>set cs. \<not> isNotLine opts c"
    using assms(2) by (simp add: isLine_def isNotLine_def)
  then have "getSuccessiveNodes cs (isNotLine opts) = []"
    by (rule getSuccessiveNodes_none)
  with assms(1) show ?thesis by (simp add: onlyLine_def)
qed

lemma noOrphanLine_no_lines:
  assumes "parent error = Some par" and "node_nodes par = Some cs"
    and "\<forall>c\<in>set cs. isNotLine opts c"
  shows "noOrphanLine opts e error =
    Inr (ReturnsUndefined,
      e\<lparr>commands := commands e @ [EnterWithoutNormalizing, LeaveWithoutNormalizing]\<rparr>)"
proof -
  have "\<forall>c\<in>set cs. \<not> isLine opts c"
    using assms(3) by (simp add: isLine_def isNotLine_def)
  then have "getSuccessiveNodes cs (isLine opts) = []"
    by (rule getSuccessiveNodes_none)
  with assms(1,2) show ?thesis
    by (simp add: noOrphanLine_def withoutNormalizing_def issue_def)
qed

text \<open>
  C9. On a container whose children are all lines, \<open>onlyLine\<close> returns the editor exactly as
  it was: it issues no command and the tree is unchanged. On a parent with no line among its
  children, \<open>noOrphanLine\<close> only enters and leaves its \<^verbatim>\<open>withoutNormalizing\<close> scope: it
  issues no insert and no move, and the tree and the key generator are unchanged. (The
  grouper returns no group on such input, and \<open>onlyLine\<close> filters empty groups out before
  it works on a group.)
\<close>

theorem repairs_noop_on_valid:
  "(node_nodes (node error) = Some cs \<and> (\<forall>c\<in>set cs. isLine opts c) \<longrightarrow>
      onlyLine deserializeCode opts e error = Inr (ReturnsEditor, e)) \<and>
   (parent error = Some par \<and> node_nodes par = Some cs' \<and> (\<forall>c\<in>set cs'. isNotLine opts c) \<longrightarrow>
      (\<exists>e'. noOrphanLine opts e error = Inr (ReturnsUndefined, e') \<and>
         doc e' = doc e \<and> next_key e' = next_key e \<and>
         commands e' = commands e @ [EnterWithoutNormalizing, LeaveWithoutNormalizing]))"
  using onlyLine_all_lines[of error cs opts deserializeCode e]
    noOrphanLine_no_lines[of error par cs' opts e]
  by auto

theorem repairs_noop_on_valid_witness:
  "onlyLine (\<lambda>opts text nk. (Text nk text [], nk))
      \<lparr>containerType = ''code_block'', lineType = ''code_line'', allowMarks = False\<rparr>
      \<lparr>doc = Elem document 0 None
         [Elem block 7 (Some ''code_block'') [Elem block 2 (Some ''code_line'') [Text 3 ''a'' []]],
          Elem block 4 (Some ''paragraph'') [Text 5 ''p'' []]],
       next_key = 8, commands = []\<rparr>
      \<lparr>code = CHILD_TYPE_INVALID,
       node = Elem block 7 (Some ''code_block'') [Elem block 2 (Some ''code_line'') [Text 3 ''a'' []]],
       parent = None\<rparr> =
    Inr (ReturnsEditor,
      \<lparr>doc = Elem document 0 None
         [Elem block 7 (Some ''code_block'') [Elem block 2 (Some ''code_line'') [Text 3 ''a'' []]],
          Elem block 4 (Some ''paragraph'') [Text 5 ''p'' []]],
       next_key = 8, commands = []\<rparr>) \<and>
   (\<exists>e'. noOrphanLine
      \<lparr>containerType = ''code_block'', lineType = ''code_line'', allowMarks = False\<rparr>
      \<lparr>doc = Elem document 0 None [Elem block 4 (Some ''paragraph'') [Text 5 ''p'' []]],
       next_key = 8, commands = []\<rparr>
      \<lparr>code = PARENT_TYPE_INVALID,
       node = Elem block 4 (Some ''paragraph'') [Text 5 ''p'' []],
       parent = Some (Elem document 0 None [Elem block 4 (Some ''paragraph'') [Text 5 ''p'' []]])\<rparr> =
      Inr (ReturnsUndefined, e') \<and>
      doc e' = Elem document 0 None [Elem block 4 (Some ''paragraph'') [Text 5 ''p'' []]] \<and>
      commands e' = [EnterWithoutNormalizing, LeaveWithoutNormalizing])"
proof -
  let ?opts = "\<lparr>containerType = ''code_block'', lineType = ''code_line'', allowMarks = False\<rparr>"
  let ?c = "Elem block 7 (Some ''code_block'') [Elem block 2 (Some ''code_line'') [Text 3 ''a'' []]]"
  let ?p = "Elem block 4 (Some ''paragraph'') [Text 5 ''p'' []]"
  let ?e1 = "\<lparr>doc = Elem document 0 None [?c, ?p], next_key = 8, commands = []\<rparr>"
  let ?e2 = "\<lparr>doc = Elem document 0 None [?p], next_key = 8, commands = []\<rparr>"
  let ?err1 = "\<lparr>code = CHILD_TYPE_INVALID, node = ?c, parent = None\<rparr>"
  let ?err2 = "\<lparr>code = PARENT_TYPE_INVALID, node = ?p, parent = Some (Elem document 0 None [?p])\<rparr>"
  have h1: "node_nodes (node ?err1) = Some [Elem block 2 (Some ''code_line'') [Text 3 ''a'' []]] \<and>
      (\<forall>c\<in>set [Elem block 2 (Some ''code_line'') [Text 3 ''a'' []]]. isLine ?opts c)"
    by (simp add: isLine_def)
  have h2: "parent ?err2 = Some (Elem document 0 None [?p]) \<and>
      node_nodes (Elem document 0 None [?p]) = Some [?p] \<and> (\<forall>c\<in>set [?p]. isNotLine ?opts c)"
    by (simp add: isNotLine_def)
  from repairs_noop_on_valid[where error = ?err1 and opts = ?opts and e = ?e1
      and cs = "[Elem block 2 (Some ''code_line'') [Text 3 ''a'' []]]"
      and deserializeCode = "\<lambda>opts text nk. (Text nk text [], nk)"] h1
  have a: "onlyLine (\<lambda>opts text nk. (Text nk text [], nk)) ?opts ?e1 ?err1 = Inr (ReturnsEditor, ?e1)"
    by blast
  from repairs_noop_on_valid[where error = ?err2 and opts = ?opts and e = ?e2
      and par = "Elem document 0 None [?p]" and cs' = "[?p]"] h2
  have b: "\<exists>e'. noOrphanLine ?opts ?e2 ?err2 = Inr (ReturnsUndefined, e') \<and>
         doc e' = doc ?e2 \<and> next_key e' = next_key ?e2 \<and>
         commands e' = commands ?e2 @ [EnterWithoutNormalizing, LeaveWithoutNormalizing]"
    by blast
  from b obtain e' where "noOrphanLine ?opts ?e2 ?err2 = Inr (ReturnsUndefined, e')"
    "doc e' = Elem document 0 None [?p]"
    "commands e' = [EnterWithoutNormalizing, LeaveWithoutNormalizing]"
    by auto
  with a show ?thesis by blast
qed

subsection \<open>noOrphanLine on concrete parents\<close>

text \<open>
  C4. Scenario 3: the parent (here the document, key 0) has the children line a, line b,
  a paragraph, line c. \<open>noOrphanLine\<close> leaves it with the children container [line a, line b],
  the paragraph, container [line c].
\<close>

theorem noOrphanLine_scenario3:
  "noOrphanLine \<lparr>containerType = ''code_block'', lineType = ''code_line'', allowMarks = True\<rparr>
     \<lparr>doc = Elem document 0 None
        [Elem block 1 (Some ''code_line'') [Text 2 ''a'' []],
         Elem block 3 (Some ''code_line'') [Text 4 ''b'' []],
         Elem block 5 (Some ''paragraph'') [Text 6 '''' []],
         Elem block 7 (Some ''code_line'') [Text 8 ''c'' []]],
      next_key = 9, commands = []\<rparr>
     \<lparr>code = PARENT_TYPE_INVALID,
      node = Elem block 1 (Some ''code_line'') [Text 2 ''a'' []],
      parent = Some (Elem document 0 None
        [Elem block 1 (Some ''code_line'') [Text 2 ''a'' []],
         Elem block 3 (Some ''code_line'') [Text 4 ''b'' []],
         Elem block 5 (Some ''paragraph'') [Text 6 '''' []],
         Elem block 7 (Some ''code_line'') [Text 8 ''c'' []]])\<rparr>
   = Inr (ReturnsUndefined,
      \<lparr>doc = Elem document 0 None
        [Elem block 10 (Some ''code_block'')
           [Elem block 1 (Some ''code_line'') [Text 2 ''a'' []],
            Elem block 3 (Some ''code_line'') [Text 4 ''b'' []]],
         Elem block 5 (Some ''paragraph'') [Text 6 '''' []],
         Elem block 12 (Some ''code_block'')
           [Elem block 7 (Some ''code_line'') [Text 8 ''c'' []]]],
       next_key = 13,
       commands =
           [EnterWithoutNormalizing,
            InsertNodeByKey 0 0 (Elem block 10 (Some ''code_block'') []),
            MoveNodeByKey 1 10 0, MoveNodeByKey 3 10 1,
            InsertNodeByKey 0 3 (Elem block 12 (Some ''code_block'') []),
            MoveNodeByKey 7 12 0, LeaveWithoutNormalizing]\<rparr>)"
  by code_simp

text \<open>
  C2, at a parent where the code departs from the claim. The children are line a, line b,
  line c, paragraph p, line d, paragraph q. When the second run (line d) is processed the
  parent's current children are the first container, p, line d and q, so line d stands at
  position 2; the code looks the position up in \<^verbatim>\<open>parent.nodes\<close> of the violation
  report, finds 4, and inserts the second container there. The repaired parent has the
  children container [a, b, c], p, q, container [d]: the run that stood between the two
  paragraphs ends up behind both.
\<close>

theorem noOrphanLine_uses_snapshot_position:
  "noOrphanLine \<lparr>containerType = ''code_block'', lineType = ''code_line'', allowMarks = True\<rparr>
     \<lparr>doc = Elem document 0 None
        [Elem block 1 (Some ''code_line'') [Text 2 ''a'' []],
         Elem block 3 (Some ''code_line'') [Text 4 ''b'' []],
         Elem block 5 (Some ''code_line'') [Text 6 ''c'' []],
         Elem block 7 (Some ''paragraph'') [Text 8 ''p'' []],
         Elem block 9 (Some ''code_line'') [Text 10 ''d'' []],
         Elem block 11 (Some ''paragraph'') [Text 12 ''q'' []]],
      next_key = 13, commands = []\<rparr>
     \<lparr>code = PARENT_TYPE_INVALID,
      node = Elem block 1 (Some ''code_line'') [Text 2 ''a'' []],
      parent = Some (Elem document 0 None
        [Elem block 1 (Some ''code_line'') [Text 2 ''a'' []],
         Elem block 3 (Some ''code_line'') [Text 4 ''b'' []],
         Elem block 5 (Some ''code_line'') [Text 6 ''c'' []],
         Elem block 7 (Some ''paragraph'') [Text 8 ''p'' []],
         Elem block 9 (Some ''code_line'') [Text 10 ''d'' []],
         Elem block 11 (Some ''paragraph'') [Text 12 ''q'' []]])\<rparr>
   = Inr (ReturnsUndefined,
      \<lparr>doc = Elem document 0 None
        [Elem block 14 (Some ''code_block'')
           [Elem block 1 (Some ''code_line'') [Text 2 ''a'' []],
            Elem block 3 (Some ''code_line'') [Text 4 ''b'' []],
            Elem block 5 (Some ''code_line'') [Text 6 ''c'' []]],
         Elem block 7 (Some ''paragraph'') [Text 8 ''p'' []],
         Elem block 11 (Some ''paragraph'') [Text 12 ''q'' []],
         Elem block 16 (Some ''code_block'')
           [Elem block 9 (Some ''code_line'') [Text 10 ''d'' []]]],
       next_key = 17,
       commands =
           [EnterWithoutNormalizing,
            InsertNodeByKey 0 0 (Elem block 14 (Some ''code_block'') []),
            MoveNodeByKey 1 14 0, MoveNodeByKey 3 14 1, MoveNodeByKey 5 14 2,
            InsertNodeByKey 0 4 (Elem block 16 (Some ''code_block'') []),
            MoveNodeByKey 9 16 0, LeaveWithoutNormalizing]\<rparr>)"
  by code_simp

text \<open>
  C7, at a parent where the code departs from the claim. The document holds one orphan
  line. \<open>noOrphanLine\<close> repairs it (it inserts a container and moves the line into it) and
  returns \<^verbatim>\<open>undefined\<close>, the value the handlers return for a code they do not handle.
\<close>

theorem noOrphanLine_repairs_and_returns_undefined:
  "noOrphanLine \<lparr>containerType = ''code_block'', lineType = ''code_line'', allowMarks = True\<rparr>
     \<lparr>doc = Elem document 0 None [Elem block 1 (Some ''code_line'') [Text 2 ''a'' []]],
      next_key = 3, commands = []\<rparr>
     \<lparr>code = PARENT_TYPE_INVALID,
      node = Elem block 1 (Some ''code_line'') [Text 2 ''a'' []],
      parent = Some (Elem document 0 None [Elem block 1 (Some ''code_line'') [Text 2 ''a'' []]])\<rparr>
   = Inr (ReturnsUndefined,
      \<lparr>doc = Elem document 0 None
        [Elem block 4 (Some ''code_block'') [Elem block 1 (Some ''code_line'') [Text 2 ''a'' []]]],
       next_key = 5,
       commands =
           [EnterWithoutNormalizing,
            InsertNodeByKey 0 0 (Elem block 4 (Some ''code_block'') []),
            MoveNodeByKey 1 4 0, LeaveWithoutNormalizing]\<rparr>)"
  by code_simp

subsection \<open>The tree operations at a node in its document\<close>

lemma keys_of_simps [simp]:
  "keys_of [] = []"
  "keys_of (n # ns) = all_keys n @ keys_of ns"
  "keys_of (xs @ ys) = keys_of xs @ keys_of ys"
  by (simp_all add: keys_of_def)

lemma all_keys_Elem [simp]: "all_keys (Elem ob k ty ns) = k # keys_of ns"
  by (simp add: keys_of_def)

declare all_keys.simps(2) [simp del]

lemma absent_in_list: "k \<notin> set (keys_of ns) \<Longrightarrow> c \<in> set ns \<Longrightarrow> k \<notin> set (all_keys c)"
  by (auto simp: keys_of_def)

lemma node_key_in_all_keys: "node_key n \<in> set (all_keys n)"
  by (cases n) simp_all

lemma all_keys_eq: "all_keys n = node_key n # tl (all_keys n)"
  by (cases n) simp_all

lemma all_keys_set_key: "all_keys (set_key k n) = k # tl (all_keys n)"
  by (cases n) simp_all

lemma in_keys_of: "c \<in> set ns \<Longrightarrow> set (all_keys c) \<subseteq> set (keys_of ns)"
  by (auto simp: keys_of_def)

lemma set_all_keys_plug: "set (all_keys (plug C n)) = set (ctx_keys C) \<union> set (all_keys n)"
  by (induction C) auto

lemma node_key_plug: "node_key (plug C n) \<in> set (ctx_keys C) \<union> {node_key n}"
  by (cases C) simp_all

lemma first_some_None: "(\<And>x. x \<in> set xs \<Longrightarrow> f x = None) \<Longrightarrow> first_some (map f xs) = None"
  by (induction xs) simp_all

lemma first_some_append:
  "(\<And>x. x \<in> set xs \<Longrightarrow> f x = None) \<Longrightarrow>
   first_some (map f (xs @ ys)) = first_some (map f ys)"
  by (induction xs) simp_all

lemma first_some_Cons_Some: "f y = Some v \<Longrightarrow> first_some (map f (y # ys)) = Some v"
  by simp

lemma getNode_absent: "k \<notin> set (all_keys n) \<Longrightarrow> getNode k n = None"
proof (induction n)
  case (Text k' s ms)
  then show ?case by simp
next
  case (Elem ob k' ty ns)
  have "\<And>x. x \<in> set ns \<Longrightarrow> getNode k x = None"
    using Elem absent_in_list[of k ns] by simp
  then have "first_some (map (getNode k) ns) = None" by (rule first_some_None)
  with Elem.prems show ?case by simp
qed

lemma getParent_absent: "k \<notin> set (all_keys n) \<Longrightarrow> getParent k n = None"
proof (induction n)
  case (Text k' s ms)
  then show ?case by simp
next
  case (Elem ob k' ty ns)
  have "\<And>x. x \<in> set ns \<Longrightarrow> getParent k x = None"
    using Elem absent_in_list[of k ns] by simp
  then have "first_some (map (getParent k) ns) = None" by (rule first_some_None)
  moreover have "k \<notin> node_key ` set ns"
    using Elem.prems node_key_in_all_keys absent_in_list[of k ns] by auto
  ultimately show ?case by simp
qed

lemma insertNode_absent: "k \<notin> set (all_keys n) \<Longrightarrow> insertNode k i m n = n"
proof (induction n)
  case (Text k' s ms)
  then show ?case by simp
next
  case (Elem ob k' ty ns)
  have "\<And>x. x \<in> set ns \<Longrightarrow> insertNode k i m x = x"
    using Elem absent_in_list[of k ns] by simp
  then have "map (insertNode k i m) ns = ns" by (simp add: map_idI)
  with Elem.prems show ?case by simp
qed

lemma removeNode_absent: "k \<notin> set (all_keys n) \<Longrightarrow> removeNode k n = n"
proof (induction n)
  case (Text k' s ms)
  then show ?case by simp
next
  case (Elem ob k' ty ns)
  have "\<And>x. x \<in> set ns \<Longrightarrow> removeNode k x = x"
    using Elem absent_in_list[of k ns] by simp
  then have m: "map (removeNode k) ns = ns" by (simp add: map_idI)
  have "\<And>x. x \<in> set ns \<Longrightarrow> node_key x \<noteq> k"
    using Elem.prems node_key_in_all_keys absent_in_list[of k ns] by auto
  then have "filter (\<lambda>c. node_key c \<noteq> k) ns = ns" by (simp add: filter_id_conv)
  with m show ?case by simp
qed

lemma getNode_present: "k \<in> set (all_keys n) \<Longrightarrow> getNode k n \<noteq> None"
proof (induction n)
  case (Text k' s ms)
  then show ?case by simp
next
  case (Elem ob k' ty ns)
  show ?case
  proof (cases "k' = k")
    case True
    then show ?thesis by simp
  next
    case False
    with Elem.prems obtain c where c: "c \<in> set ns" "k \<in> set (all_keys c)"
      by (auto simp: keys_of_def)
    with Elem.IH have "getNode k c \<noteq> None" by blast
    with c(1) have "first_some (map (getNode k) ns) \<noteq> None"
    proof (induction ns)
      case Nil
      then show ?case by simp
    next
      case (Cons a ns)
      then show ?case by (cases "getNode k a") auto
    qed
    with False show ?thesis by simp
  qed
qed

lemma getNode_plug:
  "ck \<notin> set (ctx_keys C) \<Longrightarrow>
   getNode ck (plug C (Elem ob ck ty cs)) = Some (Elem ob ck ty cs)"
proof (induction C)
  case Hole
  then show ?case by simp
next
  case (Down ob' k' ty' l C r)
  have "\<And>x. x \<in> set l \<Longrightarrow> getNode ck x = None"
    using Down.prems absent_in_list[of ck l] by (simp add: getNode_absent)
  then have "first_some (map (getNode ck) (l @ plug C (Elem ob ck ty cs) # r)) =
      first_some (map (getNode ck) (plug C (Elem ob ck ty cs) # r))"
    by (rule first_some_append)
  also have "\<dots> = Some (Elem ob ck ty cs)"
    using Down by simp
  finally show ?case using Down.prems by simp
qed

lemma insertNode_plug:
  "ck \<notin> set (ctx_keys C) \<Longrightarrow>
   insertNode ck i n (plug C (Elem ob ck ty cs)) = plug C (Elem ob ck ty (splice_insert i n cs))"
proof (induction C)
  case Hole
  then show ?case by simp
next
  case (Down ob' k' ty' l C r)
  have "\<And>x. x \<in> set l \<union> set r \<Longrightarrow> insertNode ck i n x = x"
    using Down.prems absent_in_list[of ck l] absent_in_list[of ck r]
    by (auto simp: insertNode_absent)
  then have "map (insertNode ck i n) l = l" "map (insertNode ck i n) r = r"
    by (simp_all add: map_idI)
  with Down show ?case by simp
qed

lemma removeNode_plug:
  assumes "k \<notin> set (ctx_keys C)" and "k \<noteq> ck"
  shows "removeNode k (plug C (Elem ob ck ty cs)) =
     plug C (Elem ob ck ty (map (removeNode k) (filter (\<lambda>c. node_key c \<noteq> k) cs)))"
  using assms
proof (induction C)
  case Hole
  then show ?case by simp
next
  case (Down ob' k' ty' l C r)
  have a: "\<And>x. x \<in> set l \<union> set r \<Longrightarrow> k \<notin> set (all_keys x)"
    using Down.prems absent_in_list[of k l] absent_in_list[of k r] by auto
  then have "\<And>x. x \<in> set l \<union> set r \<Longrightarrow> removeNode k x = x"
    by (simp add: removeNode_absent)
  then have m: "map (removeNode k) l = l" "map (removeNode k) r = r"
    by (simp_all add: map_idI)
  have "\<And>x. x \<in> set l \<union> set r \<Longrightarrow> node_key x \<noteq> k"
    using a node_key_in_all_keys by blast
  then have f: "filter (\<lambda>c. node_key c \<noteq> k) l = l" "filter (\<lambda>c. node_key c \<noteq> k) r = r"
    by (simp_all add: filter_id_conv)
  have "node_key (plug C (Elem ob ck ty cs)) \<noteq> k"
    using node_key_plug[of C "Elem ob ck ty cs"] Down.prems by auto
  with m f Down show ?case by simp
qed

lemma getParent_plug:
  assumes "k \<notin> set (ctx_keys C)" and "k \<noteq> ck" and "k \<in> node_key ` set cs"
  shows "getParent k (plug C (Elem ob ck ty cs)) = Some (Elem ob ck ty cs)"
  using assms
proof (induction C)
  case Hole
  then show ?case by simp
next
  case (Down ob' k' ty' l C r)
  have a: "\<And>x. x \<in> set l \<union> set r \<Longrightarrow> k \<notin> set (all_keys x)"
    using Down.prems absent_in_list[of k l] absent_in_list[of k r] by auto
  have "\<And>x. x \<in> set l \<union> set r \<Longrightarrow> node_key x \<noteq> k"
    using a node_key_in_all_keys by blast
  moreover have "node_key (plug C (Elem ob ck ty cs)) \<noteq> k"
    using node_key_plug[of C "Elem ob ck ty cs"] Down.prems by auto
  ultimately have nk: "k \<notin> set (map node_key (l @ plug C (Elem ob ck ty cs) # r))"
    by auto
  have "\<And>x. x \<in> set l \<Longrightarrow> getParent k x = None"
    using a by (simp add: getParent_absent)
  then have "first_some (map (getParent k) (l @ plug C (Elem ob ck ty cs) # r)) =
      first_some (map (getParent k) (plug C (Elem ob ck ty cs) # r))"
    by (rule first_some_append)
  also have "\<dots> = Some (Elem ob ck ty cs)"
    using Down by simp
  finally show ?case using nk by simp
qed

lemma first_some_SomeD:
  "first_some (map f xs) = Some v \<Longrightarrow> \<exists>l x r. xs = l @ x # r \<and> f x = Some v"
proof (induction xs)
  case Nil
  then show ?case by simp
next
  case (Cons a xs)
  show ?case
  proof (cases "f a")
    case None
    with Cons obtain l x r where "xs = l @ x # r" "f x = Some v" by auto
    then have "a # xs = (a # l) @ x # r \<and> f x = Some v" by simp
    then show ?thesis by blast
  next
    case (Some w)
    with Cons.prems have "a # xs = [] @ a # xs \<and> f a = Some v" by simp
    then show ?thesis by blast
  qed
qed

lemma getNode_ctx: "getNode k d = Some n \<Longrightarrow> \<exists>C. d = plug C n"
proof (induction d)
  case (Text k' s ms)
  then have "n = Text k' s ms" by (cases "k' = k") simp_all
  then have "Text k' s ms = plug Hole n" by simp
  then show ?case by (rule exI)
next
  case (Elem ob k' ty ns)
  show ?case
  proof (cases "k' = k")
    case True
    with Elem.prems have "n = Elem ob k' ty ns" by simp
    then have "Elem ob k' ty ns = plug Hole n" by simp
    then show ?thesis by (rule exI)
  next
    case False
    with Elem.prems have "first_some (map (getNode k) ns) = Some n" by simp
    then obtain l x r where x: "ns = l @ x # r" "getNode k x = Some n"
      using first_some_SomeD[of "getNode k" ns n] by auto
    from x(1) have "x \<in> set ns" by simp
    from Elem.IH[OF this x(2)] obtain C where "x = plug C n" by (rule exE)
    with x(1) have "Elem ob k' ty ns = plug (Down ob k' ty l C r) n" by simp
    then show ?thesis by (rule exI)
  qed
qed

lemma getNode_key: "getNode k d = Some n \<Longrightarrow> node_key n = k"
proof (induction d)
  case (Text k' s ms)
  then show ?case by (cases "k' = k") auto
next
  case (Elem ob k' ty ns)
  show ?case
  proof (cases "k' = k")
    case True
    with Elem.prems show ?thesis by auto
  next
    case False
    with Elem.prems have "first_some (map (getNode k) ns) = Some n" by simp
    then obtain l x r where x: "ns = l @ x # r" "getNode k x = Some n"
      using first_some_SomeD[of "getNode k" ns n] by auto
    from x(1) have "x \<in> set ns" by simp
    from Elem.IH[OF this x(2)] show ?thesis .
  qed
qed

lemma distinct_all_keys_plug:
  "distinct (all_keys (plug C n)) \<Longrightarrow> distinct (ctx_keys C @ all_keys n)"
proof (induction C)
  case Hole
  then show ?case by simp
next
  case (Down ob k ty l C r)
  from Down.prems have d: "distinct (k # keys_of l @ all_keys (plug C n) @ keys_of r)"
    by simp
  then have "distinct (all_keys (plug C n))" by simp
  with Down.IH have "distinct (ctx_keys C @ all_keys n)" by blast
  with d show ?case
    by (simp add: set_all_keys_plug) blast
qed

subsection \<open>Inserting and removing children of the singled-out node\<close>

lemma length_regenerateKeys [simp]: "length (regenerateKeys nk cs) = length cs"
  by (induction cs arbitrary: nk) simp_all

lemma splice_insert_at: "splice_insert (int (length xs)) v (xs @ ys) = xs @ v # ys"
  by (simp add: splice_insert_def resolveBegin_def)

lemma indexOf_at: "v \<notin> set xs \<Longrightarrow> indexOf (xs @ v # ys) v = int (length xs)"
  by (induction xs) (auto simp: Let_def)

lemma insertNodeByKey_focus:
  assumes "ck \<notin> set (ctx_keys C)" and "doc e = plug C (Elem ob ck ty (A @ R))"
  shows "insertNodeByKey ck (int (length A)) n e =
    Inr (e\<lparr>doc := plug C (Elem ob ck ty (A @ n # R)),
            commands := commands e @ [InsertNodeByKey ck (int (length A)) n]\<rparr>)"
  using assms
  by (simp add: insertNodeByKey_def getNode_plug insertNode_plug splice_insert_at issue_def)

lemma insertCodeLines_focus:
  assumes "ck \<notin> set (ctx_keys C)"
  shows "doc e = plug C (Elem ob ck ty (A @ R)) \<Longrightarrow> base + index = int (length A) \<Longrightarrow>
    insertCodeLines ck base cls index e =
      Inr (e\<lparr>doc := plug C (Elem ob ck ty (A @ regenerateKeys (next_key e) cls @ R)),
              next_key := next_key e + length cls,
              commands := commands e @
                insert_commands ck (base + index) (regenerateKeys (next_key e) cls)\<rparr>)"
proof (induction cls arbitrary: A index e)
  case Nil
  then show ?case by simp
next
  case (Cons c cls)
  let ?n = "set_key (next_key e) c"
  let ?e1 = "e\<lparr>next_key := Suc (next_key e)\<rparr>"
  let ?e2 = "?e1\<lparr>doc := plug C (Elem ob ck ty (A @ ?n # R)),
            commands := commands ?e1 @ [InsertNodeByKey ck (int (length A)) ?n]\<rparr>"
  have r: "regenerateKey c e = (?n, ?e1)"
    by (simp add: regenerateKey_def create_key_def)
  have d1: "doc ?e1 = plug C (Elem ob ck ty (A @ R))" using Cons.prems by simp
  have i: "insertNodeByKey ck (base + index) ?n ?e1 = Inr ?e2"
    using insertNodeByKey_focus[OF assms d1, of ?n] Cons.prems(2) by simp
  have d2: "doc ?e2 = plug C (Elem ob ck ty ((A @ [?n]) @ R))" by simp
  have ix: "base + (index + 1) = int (length (A @ [?n]))" using Cons.prems(2) by simp
  have ix': "base + (index + 1) = int (length A) + 1" using Cons.prems(2) by simp
  from Cons.IH[OF d2 ix] r i show ?case
    using Cons.prems(2) by (simp add: ix')
qed

lemma removeNodeByKey_focus:
  assumes "doc e = plug C (Elem ob ck ty (A @ n # B))"
    and "distinct (ctx_keys C @ ck # keys_of (A @ n # B))"
  shows "removeNodeByKey (node_key n) e =
    Inr (e\<lparr>doc := plug C (Elem ob ck ty (A @ B)),
            commands := commands e @ [RemoveNodeByKey (node_key n)]\<rparr>)"
proof -
  let ?k = "node_key n"
  have kn: "?k \<in> set (all_keys n)" by (rule node_key_in_all_keys)
  with assms(2) have k1: "?k \<notin> set (ctx_keys C)" "?k \<noteq> ck"
    "?k \<notin> set (keys_of A)" "?k \<notin> set (keys_of B)"
    by auto
  have "?k \<in> set (all_keys (doc e))"
    using kn assms(1) by (simp add: set_all_keys_plug)
  then have present: "getNode ?k (doc e) \<noteq> None" by (rule getNode_present)
  have root: "?k \<noteq> node_key (doc e)"
    using node_key_plug[of C "Elem ob ck ty (A @ n # B)"] k1 assms(1) by auto
  have others: "\<And>c. c \<in> set A \<union> set B \<Longrightarrow> ?k \<notin> set (all_keys c)"
    using k1(3,4) absent_in_list[of ?k A] absent_in_list[of ?k B] by auto
  then have "\<And>c. c \<in> set A \<union> set B \<Longrightarrow> node_key c \<noteq> ?k"
    using node_key_in_all_keys by metis
  then have f: "filter (\<lambda>c. node_key c \<noteq> ?k) A = A" "filter (\<lambda>c. node_key c \<noteq> ?k) B = B"
    by (simp_all add: filter_id_conv)
  have "\<And>c. c \<in> set A \<union> set B \<Longrightarrow> removeNode ?k c = c"
    using others by (simp add: removeNode_absent)
  then have m: "map (removeNode ?k) A = A" "map (removeNode ?k) B = B"
    by (simp_all add: map_idI)
  have "removeNode ?k (doc e) = plug C (Elem ob ck ty (A @ B))"
    using removeNode_plug[OF k1(1,2), of ob ty "A @ n # B"] assms(1) f m by simp
  with present root show ?thesis
    by (simp add: removeNodeByKey_def issue_def)
qed

lemma removeNodes_focus:
  "doc e = plug C (Elem ob ck ty (A @ g @ B)) \<Longrightarrow>
   distinct (ctx_keys C @ ck # keys_of (A @ g @ B)) \<Longrightarrow>
   removeNodes g e =
     Inr (e\<lparr>doc := plug C (Elem ob ck ty (A @ B)),
             commands := commands e @ remove_commands g\<rparr>)"
proof (induction g arbitrary: e)
  case Nil
  then show ?case by (simp add: remove_commands_def)
next
  case (Cons n g)
  let ?e1 = "e\<lparr>doc := plug C (Elem ob ck ty (A @ g @ B)),
            commands := commands e @ [RemoveNodeByKey (node_key n)]\<rparr>"
  have r: "removeNodeByKey (node_key n) e = Inr ?e1"
    using removeNodeByKey_focus[of e C ob ck ty A n "g @ B"] Cons.prems by simp
  have d1: "doc ?e1 = plug C (Elem ob ck ty (A @ g @ B))" by simp
  have dist: "distinct (ctx_keys C @ ck # keys_of (A @ g @ B))"
    using Cons.prems(2) by auto
  from Cons.IH[OF d1 dist] r show ?case by (simp add: remove_commands_def)
qed

subsection \<open>Fresh keys\<close>

lemma textToLines_fresh:
  assumes "fresh_keys deserializeCode opts"
    and "textToLines deserializeCode opts text nk = (ls, nk1)"
  shows "\<exists>code_block. deserializeCode opts text nk = (code_block, nk1) \<and>
           node_nodes code_block = Some ls"
    and "nk \<le> nk1" and "distinct (keys_of ls)" and "\<forall>k\<in>set (keys_of ls). nk \<le> k \<and> k < nk1"
proof -
  obtain cb nk' where d: "deserializeCode opts text nk = (cb, nk')" by (cases "deserializeCode opts text nk")
  note f = assms(1)[unfolded fresh_keys_def, THEN spec, THEN spec, of nk "text"]
  from f d have "nk \<le> nk' \<and>
          (\<exists>ls. node_nodes cb = Some ls \<and> distinct (keys_of ls) \<and>
             (\<forall>k\<in>set (keys_of ls). nk \<le> k \<and> k < nk'))"
    by simp
  then obtain ls' where l: "nk \<le> nk'" "node_nodes cb = Some ls'" "distinct (keys_of ls')"
      "\<forall>k\<in>set (keys_of ls'). nk \<le> k \<and> k < nk'"
    by (elim conjE exE)
  from assms(2) d l(2) have eq: "ls = ls'" "nk1 = nk'"
    by (simp_all add: textToLines_def)
  from d l eq show "\<exists>code_block. deserializeCode opts text nk = (code_block, nk1) \<and>
           node_nodes code_block = Some ls" by simp
  from l eq show "nk \<le> nk1" "distinct (keys_of ls)" "\<forall>k\<in>set (keys_of ls). nk \<le> k \<and> k < nk1"
    by simp_all
qed

lemma set_tl_all_keys: "set (tl (all_keys c)) \<subseteq> set (all_keys c)"
  by (cases "all_keys c") auto

lemma regenerateKeys_keys:
  "set (keys_of (regenerateKeys m ls)) \<subseteq> set (keys_of ls) \<union> {m ..< m + length ls}"
proof (induction ls arbitrary: m)
  case Nil
  then show ?case by simp
next
  case (Cons c ls)
  have "set (keys_of (regenerateKeys (Suc m) ls)) \<subseteq> set (keys_of ls) \<union> {Suc m ..< Suc m + length ls}"
    by (rule Cons.IH)
  moreover have "set (all_keys (set_key m c)) \<subseteq> insert m (set (all_keys c))"
    using set_tl_all_keys[of c] by (auto simp: all_keys_set_key)
  ultimately show ?case by auto
qed

lemma regenerateKeys_distinct:
  "distinct (keys_of ls) \<Longrightarrow> \<forall>k\<in>set (keys_of ls). k < m \<Longrightarrow>
   distinct (keys_of (regenerateKeys m ls))"
proof (induction ls arbitrary: m)
  case Nil
  then show ?case by simp
next
  case (Cons c ls)
  have "distinct (keys_of ls)" using Cons.prems(1) by simp
  moreover have "\<forall>k\<in>set (keys_of ls). k < Suc m"
    using Cons.prems(2) by (simp add: less_Suc_eq)
  ultimately have ih: "distinct (keys_of (regenerateKeys (Suc m) ls))"
    by (rule Cons.IH)
  have sub: "set (keys_of (regenerateKeys (Suc m) ls)) \<subseteq>
      set (keys_of ls) \<union> {Suc m ..< Suc m + length ls}"
    by (rule regenerateKeys_keys)
  have tl_sub: "set (tl (all_keys c)) \<subseteq> set (all_keys c)" by (rule set_tl_all_keys)
  have dc: "distinct (all_keys c)" using Cons.prems(1) by simp
  then have dtl: "distinct (tl (all_keys c))" by (rule distinct_tl)
  have lt: "\<forall>k\<in>set (all_keys c). k < m" "\<forall>k\<in>set (keys_of ls). k < m"
    using Cons.prems(2) by auto
  have disj: "set (all_keys c) \<inter> set (keys_of ls) = {}"
    using Cons.prems(1) by auto
  have a: "m \<notin> set (tl (all_keys c))" using lt(1) tl_sub by auto
  have b: "m \<notin> set (keys_of (regenerateKeys (Suc m) ls))" using sub lt(2) by auto
  have c: "set (tl (all_keys c)) \<inter> set (keys_of (regenerateKeys (Suc m) ls)) = {}"
  proof -
    have "set (tl (all_keys c)) \<inter> set (keys_of ls) = {}" using disj tl_sub by auto
    moreover have "set (tl (all_keys c)) \<inter> {Suc m ..< Suc m + length ls} = {}"
      using lt(1) tl_sub by fastforce
    ultimately show ?thesis using sub by blast
  qed
  from ih dtl a b c show ?case by (simp add: all_keys_set_key)
qed

subsection \<open>onlyLine on one group\<close>

lemma fresh_lines_wf:
  assumes wf: "wf_focus C ck (A @ g @ B) nk"
    and le: "nk \<le> nk1" and dl: "distinct (keys_of ls)"
    and rng: "\<forall>k\<in>set (keys_of ls). nk \<le> k \<and> k < nk1"
  shows "wf_focus C ck (A @ regenerateKeys nk1 ls @ g @ B) (nk1 + length ls)"
proof -
  let ?new = "regenerateKeys nk1 ls"
  have sub: "set (keys_of ?new) \<subseteq> set (keys_of ls) \<union> {nk1 ..< nk1 + length ls}"
    by (rule regenerateKeys_keys)
  have lo: "\<forall>k\<in>set (keys_of ?new). nk \<le> k"
    using sub rng le by fastforce
  have hi: "\<forall>k\<in>set (keys_of ?new). k < nk1 + length ls"
    using sub rng by fastforce
  have dn: "distinct (keys_of ?new)"
    using dl rng by (intro regenerateKeys_distinct) auto
  from wf have old: "distinct (ctx_keys C @ ck # keys_of (A @ g @ B))"
    "\<forall>k\<in>set (ctx_keys C @ ck # keys_of (A @ g @ B)). k < nk"
    by (simp_all add: wf_focus_def)
  have disj: "set (keys_of ?new) \<inter> set (ctx_keys C @ ck # keys_of (A @ g @ B)) = {}"
    using lo old(2) by fastforce
  have "distinct (ctx_keys C @ ck # keys_of (A @ ?new @ g @ B))"
    using old(1) dn disj by auto
  moreover have "\<forall>k\<in>set (ctx_keys C @ ck # keys_of (A @ ?new @ g @ B)). k < nk1 + length ls"
  proof
    fix k
    assume "k \<in> set (ctx_keys C @ ck # keys_of (A @ ?new @ g @ B))"
    then consider "k \<in> set (ctx_keys C @ ck # keys_of (A @ g @ B))" | "k \<in> set (keys_of ?new)"
      by auto
    then show "k < nk1 + length ls"
    proof cases
      case 1
      with old(2) have "k < nk" by blast
      with le show ?thesis by simp
    next
      case 2
      with hi show ?thesis by blast
    qed
  qed
  ultimately show ?thesis by (simp add: wf_focus_def)
qed

lemma wf_focus_drop:
  "wf_focus C ck (A @ g @ B) nk \<Longrightarrow> wf_focus C ck (A @ B) nk"
  by (auto simp: wf_focus_def)

lemma relineGroup_focus:
  assumes fk: "fresh_keys deserializeCode opts"
    and d: "doc e = plug C (Elem ob ck ty (A @ g @ B))"
    and ne: "g \<noteq> []"
    and wf: "wf_focus C ck (A @ g @ B) (next_key e)"
    and t: "textToLines deserializeCode opts (concat (map node_text g)) (next_key e) = (ls, nk1)"
  shows "relineGroup deserializeCode opts g e =
      Inr (e\<lparr>doc := plug C (Elem ob ck ty (A @ regenerateKeys nk1 ls @ B)),
              next_key := nk1 + length ls,
              commands := commands e @ [EnterWithoutNormalizing] @
                insert_commands ck (int (length A)) (regenerateKeys nk1 ls) @
                [LeaveWithoutNormalizing, EnterWithoutNormalizing] @ remove_commands g @
                [LeaveWithoutNormalizing]\<rparr>)"
    and "wf_focus C ck (A @ regenerateKeys nk1 ls @ B) (nk1 + length ls)"
proof -
  let ?new = "regenerateKeys nk1 ls"
  let ?cur = "A @ g @ B"
  from ne obtain c g' where g: "g = c # g'" by (cases g) auto
  from textToLines_fresh[OF fk t] obtain cb where
    cb: "deserializeCode opts (concat (map node_text g)) (next_key e) = (cb, nk1)"
        "node_nodes cb = Some ls"
    and le: "next_key e \<le> nk1" and dl: "distinct (keys_of ls)"
    and rng: "\<forall>k\<in>set (keys_of ls). next_key e \<le> k \<and> k < nk1"
    by blast
  from wf have dist: "distinct (ctx_keys C @ ck # keys_of ?cur)"
    by (simp add: wf_focus_def)
  have kc: "node_key c \<in> set (all_keys c)" by (rule node_key_in_all_keys)
  from dist have ckC: "ck \<notin> set (ctx_keys C)" by auto
  from dist kc g have k1: "node_key c \<notin> set (ctx_keys C)" "node_key c \<noteq> ck"
    "node_key c \<notin> set (keys_of A)"
    by auto
  have cA: "c \<notin> set A"
    using k1(3) kc absent_in_list[of "node_key c" A c] by blast
  let ?e0 = "e\<lparr>next_key := nk1\<rparr>"
  have "node_key c \<in> node_key ` set ?cur" using g by simp
  from getParent_plug[OF k1(1,2) this]
  have par: "getParent (node_key c) (doc ?e0) = Some (Elem ob ck ty ?cur)"
    using d by simp
  have idx: "indexOf ?cur c = int (length A)"
    using indexOf_at[OF cA, of "g' @ B"] g by simp
  let ?ea = "issue EnterWithoutNormalizing ?e0"
  have da: "doc ?ea = plug C (Elem ob ck ty (A @ (g @ B)))"
    using d by (simp add: issue_def)
  let ?eb = "?ea\<lparr>doc := plug C (Elem ob ck ty (A @ ?new @ (g @ B))),
              next_key := next_key ?ea + length ls,
              commands := commands ?ea @
                insert_commands ck (int (length A) + 0) (regenerateKeys (next_key ?ea) ls)\<rparr>"
  have ins: "insertCodeLines ck (int (length A)) ls 0 ?ea = Inr ?eb"
    using insertCodeLines_focus[OF ckC da, of "int (length A)" 0 ls] by (simp add: issue_def)
  let ?ec = "issue EnterWithoutNormalizing (issue LeaveWithoutNormalizing ?eb)"
  have dc: "doc ?ec = plug C (Elem ob ck ty ((A @ ?new) @ g @ B))"
    by (simp add: issue_def)
  have wf2: "wf_focus C ck (A @ ?new @ g @ B) (nk1 + length ls)"
    using fresh_lines_wf[OF wf le dl rng] .
  then have dist2: "distinct (ctx_keys C @ ck # keys_of ((A @ ?new) @ g @ B))"
    by (simp add: wf_focus_def)
  have rem: "removeNodes g ?ec =
      Inr (?ec\<lparr>doc := plug C (Elem ob ck ty ((A @ ?new) @ B)),
               commands := commands ?ec @ remove_commands g\<rparr>)"
    by (rule removeNodes_focus[OF dc dist2])
  show "relineGroup deserializeCode opts g e =
      Inr (e\<lparr>doc := plug C (Elem ob ck ty (A @ ?new @ B)),
              next_key := nk1 + length ls,
              commands := commands e @ [EnterWithoutNormalizing] @
                insert_commands ck (int (length A)) ?new @
                [LeaveWithoutNormalizing, EnterWithoutNormalizing] @ remove_commands g @
                [LeaveWithoutNormalizing]\<rparr>)"
    unfolding relineGroup_def withoutNormalizing_def
    using cb par idx ins rem g by (simp add: first_def issue_def)
  show "wf_focus C ck (A @ ?new @ B) (nk1 + length ls)"
    using wf_focus_drop[of C ck "A @ ?new" g B] wf2 by simp
qed

subsection \<open>onlyLine on all groups\<close>

lemma isNotLine_iff: "isNotLine opts c \<longleftrightarrow> \<not> isLine opts c"
  by (simp add: isNotLine_def isLine_def)

lemma relineGroups_focus:
  assumes fk: "fresh_keys deserializeCode opts"
  shows "doc e = plug C (Elem ob ck ty (A @ rest)) \<Longrightarrow>
    wf_focus C ck (A @ rest) (next_key e) \<Longrightarrow>
    \<exists>e'. relineGroups deserializeCode opts (getSuccessiveNodes rest (isNotLine opts)) e = Inr e' \<and>
      doc e' = plug C (Elem ob ck ty (A @ relined deserializeCode opts rest (next_key e))) \<and>
      commands e' = commands e @
        reline_commands deserializeCode opts ck (int (length A)) rest (next_key e) \<and>
      wf_focus C ck (A @ relined deserializeCode opts rest (next_key e)) (next_key e')"
proof (induction rest arbitrary: A e rule: length_induct)
  case (1 rest)
  show ?case
  proof (cases rest)
    case Nil
    with 1(2,3) show ?thesis by (simp add: getSuccessiveNodes_Nil)
  next
    case (Cons c cs)
    show ?thesis
    proof (cases "isNotLine opts c")
      case False
      have len: "length cs < length rest" using Cons by simp
      have d: "doc e = plug C (Elem ob ck ty ((A @ [c]) @ cs))" using 1(2) Cons by simp
      have wf: "wf_focus C ck ((A @ [c]) @ cs) (next_key e)" using 1(3) Cons by simp
      from 1(1)[rule_format, OF len d wf] obtain e' where
        "relineGroups deserializeCode opts (getSuccessiveNodes cs (isNotLine opts)) e = Inr e'"
        "doc e' = plug C (Elem ob ck ty ((A @ [c]) @ relined deserializeCode opts cs (next_key e)))"
        "commands e' = commands e @
          reline_commands deserializeCode opts ck (int (length (A @ [c]))) cs (next_key e)"
        "wf_focus C ck ((A @ [c]) @ relined deserializeCode opts cs (next_key e)) (next_key e')"
        by blast
      with False Cons show ?thesis
        by (simp add: getSuccessiveNodes_Cons add.commute)
    next
      case True
      let ?g = "c # takeWhile (isNotLine opts) cs"
      let ?B = "dropWhile (isNotLine opts) cs"
      have rest: "rest = ?g @ ?B" using Cons by simp
      obtain ls nk1 where
        t: "textToLines deserializeCode opts (concat (map node_text ?g)) (next_key e) = (ls, nk1)"
        by (cases "textToLines deserializeCode opts (concat (map node_text ?g)) (next_key e)")
      let ?new = "regenerateKeys nk1 ls"
      let ?e1 = "e\<lparr>doc := plug C (Elem ob ck ty (A @ ?new @ ?B)),
              next_key := nk1 + length ls,
              commands := commands e @ [EnterWithoutNormalizing] @
                insert_commands ck (int (length A)) ?new @
                [LeaveWithoutNormalizing, EnterWithoutNormalizing] @ remove_commands ?g @
                [LeaveWithoutNormalizing]\<rparr>"
      have d: "doc e = plug C (Elem ob ck ty (A @ ?g @ ?B))" using 1(2) rest by simp
      have wf: "wf_focus C ck (A @ ?g @ ?B) (next_key e)" using 1(3) rest by simp
      have ne: "?g \<noteq> []" by simp
      note G = relineGroup_focus[OF fk d ne wf t]
      have len: "length ?B < length rest"
        using Cons length_dropWhile_le[of "isNotLine opts" cs] by simp
      have d1: "doc ?e1 = plug C (Elem ob ck ty ((A @ ?new) @ ?B))" by simp
      have wf1: "wf_focus C ck ((A @ ?new) @ ?B) (next_key ?e1)" using G(2) by simp
      from 1(1)[rule_format, OF len d1 wf1] obtain e' where e':
        "relineGroups deserializeCode opts (getSuccessiveNodes ?B (isNotLine opts)) ?e1 = Inr e'"
        "doc e' = plug C (Elem ob ck ty ((A @ ?new) @ relined deserializeCode opts ?B (next_key ?e1)))"
        "commands e' = commands ?e1 @
          reline_commands deserializeCode opts ck (int (length (A @ ?new))) ?B (next_key ?e1)"
        "wf_focus C ck ((A @ ?new) @ relined deserializeCode opts ?B (next_key ?e1)) (next_key e')"
        by blast
      have gs: "getSuccessiveNodes rest (isNotLine opts) =
          ?g # getSuccessiveNodes ?B (isNotLine opts)"
        using Cons True by (simp add: getSuccessiveNodes_Cons)
      have rl: "relined deserializeCode opts rest (next_key e) =
          ?new @ relined deserializeCode opts ?B (nk1 + length ls)"
        using Cons True t by simp
      have rc: "reline_commands deserializeCode opts ck (int (length A)) rest (next_key e) =
          [EnterWithoutNormalizing] @ insert_commands ck (int (length A)) ?new @
          [LeaveWithoutNormalizing, EnterWithoutNormalizing] @ remove_commands ?g @
          [LeaveWithoutNormalizing] @
          reline_commands deserializeCode opts ck (int (length A) + int (length ls)) ?B
            (nk1 + length ls)"
        using Cons True t by simp
      have "relineGroups deserializeCode opts (getSuccessiveNodes rest (isNotLine opts)) e = Inr e'"
        using gs G(1) e'(1) by simp
      moreover have "doc e' = plug C (Elem ob ck ty (A @ relined deserializeCode opts rest (next_key e)))"
        using e'(2) rl by simp
      moreover have "commands e' = commands e @
          reline_commands deserializeCode opts ck (int (length A)) rest (next_key e)"
        using e'(3) rc by simp
      moreover have "wf_focus C ck (A @ relined deserializeCode opts rest (next_key e)) (next_key e')"
        using e'(4) rl by simp
      ultimately show ?thesis by blast
    qed
  qed
qed

lemma distinct_plug_iff:
  "distinct (all_keys (plug C n)) \<longleftrightarrow> distinct (ctx_keys C @ all_keys n)"
  by (induction C) (auto simp: set_all_keys_plug)

lemma onlyLine_focus:
  assumes fk: "fresh_keys deserializeCode opts"
    and g: "getNode ck (doc e) = Some (node error)"
    and n: "node_nodes (node error) = Some cs"
    and dist: "distinct (all_keys (doc e))"
    and bound: "\<forall>k\<in>set (all_keys (doc e)). k < next_key e"
  shows "\<exists>e' C ob ty.
      onlyLine deserializeCode opts e error = Inr (ReturnsEditor, e') \<and>
      node error = Elem ob ck ty cs \<and>
      doc e = plug C (Elem ob ck ty cs) \<and>
      doc e' = plug C (Elem ob ck ty (relined deserializeCode opts cs (next_key e))) \<and>
      ck \<notin> set (ctx_keys C) \<and>
      commands e' = commands e @ reline_commands deserializeCode opts ck 0 cs (next_key e) \<and>
      distinct (all_keys (doc e')) \<and> (\<forall>k\<in>set (all_keys (doc e')). k < next_key e')"
proof -
  from n obtain ob k ty where ne: "node error = Elem ob k ty cs"
    by (cases "node error") auto
  from getNode_key[OF g] ne have k: "k = ck" by simp
  from getNode_ctx[OF g] obtain C where C: "doc e = plug C (Elem ob ck ty cs)"
    using ne k by auto
  from distinct_all_keys_plug[of C "Elem ob ck ty cs"] dist C
  have d: "distinct (ctx_keys C @ ck # keys_of cs)" by simp
  have "\<forall>k\<in>set (ctx_keys C @ ck # keys_of cs). k < next_key e"
    using bound C by (simp add: set_all_keys_plug)
  with d have wf: "wf_focus C ck ([] @ cs) (next_key e)" by (simp add: wf_focus_def)
  have d0: "doc e = plug C (Elem ob ck ty ([] @ cs))" using C by simp
  from relineGroups_focus[OF fk d0 wf] obtain e' where e':
    "relineGroups deserializeCode opts (getSuccessiveNodes cs (isNotLine opts)) e = Inr e'"
    "doc e' = plug C (Elem ob ck ty (relined deserializeCode opts cs (next_key e)))"
    "commands e' = commands e @ reline_commands deserializeCode opts ck 0 cs (next_key e)"
    "wf_focus C ck (relined deserializeCode opts cs (next_key e)) (next_key e')"
    by auto
  have "\<forall>g\<in>set (getSuccessiveNodes cs (isNotLine opts)). g \<noteq> []"
    using getSuccessiveNodes_groups by blast
  then have f: "filter (\<lambda>g. g \<noteq> []) (getSuccessiveNodes cs (isNotLine opts)) =
      getSuccessiveNodes cs (isNotLine opts)"
    by (simp add: filter_id_conv)
  have r: "onlyLine deserializeCode opts e error = Inr (ReturnsEditor, e')"
    using n f e'(1) by (simp add: onlyLine_def)
  from e'(4) have d': "distinct (ctx_keys C @ ck # keys_of (relined deserializeCode opts cs (next_key e)))"
    and b': "\<forall>k\<in>set (ctx_keys C @ ck # keys_of (relined deserializeCode opts cs (next_key e))). k < next_key e'"
    by (simp_all add: wf_focus_def)
  have "distinct (all_keys (doc e'))"
    using d' e'(2) by (simp add: distinct_plug_iff)
  moreover have "\<forall>k\<in>set (all_keys (doc e')). k < next_key e'"
    using b' e'(2) by (simp add: set_all_keys_plug)
  moreover have "ck \<notin> set (ctx_keys C)" using d by auto
  ultimately show ?thesis using r ne k C e'(2,3) by blast
qed

lemma sample_deserializeCode_fresh: "fresh_keys sample_deserializeCode opts"
  by (simp add: fresh_keys_def sample_deserializeCode_def)

text \<open>
  C3. Let the document have unique keys, all below the state of the key generator, let the
  violation's node be the container the document holds under the key \<open>ck\<close>, with children
  \<open>cs\<close>, and let \<open>deserializeCode\<close> issue fresh keys. Then \<open>onlyLine\<close> returns the
  editor, nothing outside the container has changed, and the container's children are
  \<open>relined cs\<close>: read left to right, every line child as it was, and in the place of every
  maximal run of non-line children the lines that \<open>deserializeCode\<close> returns for the
  concatenation of the run's texts, each with a new key. (\<^verbatim>\<open>n.text\<close> of an element is
  the concatenation of the texts below it, so an element in a run contributes the text of
  its descendants.)
\<close>

theorem onlyLine_relines_children:
  assumes "fresh_keys deserializeCode opts"
    and "getNode ck (doc e) = Some (node error)"
    and "node_nodes (node error) = Some cs"
    and "distinct (all_keys (doc e))"
    and "\<forall>k\<in>set (all_keys (doc e)). k < next_key e"
  shows "\<exists>e' C ob ty.
      onlyLine deserializeCode opts e error = Inr (ReturnsEditor, e') \<and>
      node error = Elem ob ck ty cs \<and>
      doc e = plug C (Elem ob ck ty cs) \<and>
      doc e' = plug C (Elem ob ck ty (relined deserializeCode opts cs (next_key e))) \<and>
      getNode ck (doc e') = Some (Elem ob ck ty (relined deserializeCode opts cs (next_key e)))"
proof -
  from onlyLine_focus[OF assms] obtain e' C ob ty where r:
    "onlyLine deserializeCode opts e error = Inr (ReturnsEditor, e')"
    "node error = Elem ob ck ty cs"
    "doc e = plug C (Elem ob ck ty cs)"
    "doc e' = plug C (Elem ob ck ty (relined deserializeCode opts cs (next_key e)))"
    "ck \<notin> set (ctx_keys C)"
    by blast
  from r(4,5) have "getNode ck (doc e') =
      Some (Elem ob ck ty (relined deserializeCode opts cs (next_key e)))"
    by (simp add: getNode_plug)
  with r show ?thesis by blast
qed

theorem onlyLine_relines_children_witness:
  "\<exists>e'. onlyLine sample_deserializeCode
      \<lparr>containerType = ''code_block'', lineType = ''code_line'', allowMarks = False\<rparr>
      \<lparr>doc = Elem document 0 None
         [Elem block 20 (Some ''paragraph'') [Text 21 ''p'' []],
          Elem block 2 (Some ''code_block'')
            [Elem block 3 (Some ''code_line'') [Text 4 ''a'' []],
             Text 5 ''x'' [],
             Text 6 ''y'' [],
             Elem block 7 (Some ''code_line'') [Text 8 ''b'' []],
             Elem block 9 (Some ''paragraph'') [Text 10 ''q'' []]]],
       next_key = 30, commands = []\<rparr>
      \<lparr>code = CHILD_TYPE_INVALID,
       node = Elem block 2 (Some ''code_block'')
            [Elem block 3 (Some ''code_line'') [Text 4 ''a'' []],
             Text 5 ''x'' [],
             Text 6 ''y'' [],
             Elem block 7 (Some ''code_line'') [Text 8 ''b'' []],
             Elem block 9 (Some ''paragraph'') [Text 10 ''q'' []]],
       parent = None\<rparr> = Inr (ReturnsEditor, e') \<and>
     getNode 2 (doc e') = Some (Elem block 2 (Some ''code_block'')
            [Elem block 3 (Some ''code_line'') [Text 4 ''a'' []],
             Elem block 33 (Some ''code_line'') [Text 32 ''xy'' []],
             Elem block 7 (Some ''code_line'') [Text 8 ''b'' []],
             Elem block 37 (Some ''code_line'') [Text 36 ''q'' []]])"
proof -
  let ?opts = "\<lparr>containerType = ''code_block'', lineType = ''code_line'', allowMarks = False\<rparr>"
  let ?cs = "[Elem block 3 (Some ''code_line'') [Text 4 ''a'' []],
             Text 5 ''x'' [],
             Text 6 ''y'' [],
             Elem block 7 (Some ''code_line'') [Text 8 ''b'' []],
             Elem block 9 (Some ''paragraph'') [Text 10 ''q'' []]]"
  let ?c = "Elem block 2 (Some ''code_block'') ?cs"
  let ?d = "Elem document 0 None [Elem block 20 (Some ''paragraph'') [Text 21 ''p'' []], ?c]"
  let ?e = "\<lparr>doc = ?d, next_key = 30, commands = []\<rparr>"
  let ?err = "\<lparr>code = CHILD_TYPE_INVALID, node = ?c, parent = None\<rparr>"
  have h1: "fresh_keys sample_deserializeCode ?opts" by (rule sample_deserializeCode_fresh)
  have h2: "getNode 2 (doc ?e) = Some (node ?err)" by code_simp
  have h3: "node_nodes (node ?err) = Some ?cs" by simp
  have h4: "distinct (all_keys (doc ?e))" by code_simp
  have h5: "\<forall>k\<in>set (all_keys (doc ?e)). k < next_key ?e" by code_simp
  have ev: "relined sample_deserializeCode ?opts ?cs (next_key ?e) =
      [Elem block 3 (Some ''code_line'') [Text 4 ''a'' []],
       Elem block 33 (Some ''code_line'') [Text 32 ''xy'' []],
       Elem block 7 (Some ''code_line'') [Text 8 ''b'' []],
       Elem block 37 (Some ''code_line'') [Text 36 ''q'' []]]"
    by code_simp
  from onlyLine_relines_children[OF h1 h2 h3 h4 h5] obtain e' ob ty where
    "onlyLine sample_deserializeCode ?opts ?e ?err = Inr (ReturnsEditor, e')"
    "node ?err = Elem ob 2 ty ?cs"
    "getNode 2 (doc e') = Some (Elem ob 2 ty (relined sample_deserializeCode ?opts ?cs (next_key ?e)))"
    by blast
  then show ?thesis unfolding ev by auto
qed

text \<open>
  C5. Under the same conditions the commands that \<open>onlyLine\<close> issues are
  \<open>reline_commands\<close>: for every maximal non-line run, from left to right, one
  \<^verbatim>\<open>withoutNormalizing\<close> scope with the inserts of the new lines at consecutive
  positions, then a second scope with the removal of the run's nodes by key. The first insert
  position of a run is \<open>pos\<close>, the number of children that stand before the run in the
  container at that moment (the lines kept so far and the lines inserted for earlier runs),
  not the run's index in the children of the violation report. In the witness the second run
  stands at index 4 of the reported children and its line is inserted at position 3.
\<close>

theorem onlyLine_commands:
  assumes "fresh_keys deserializeCode opts"
    and "getNode ck (doc e) = Some (node error)"
    and "node_nodes (node error) = Some cs"
    and "distinct (all_keys (doc e))"
    and "\<forall>k\<in>set (all_keys (doc e)). k < next_key e"
  shows "\<exists>e'. onlyLine deserializeCode opts e error = Inr (ReturnsEditor, e') \<and>
      commands e' = commands e @ reline_commands deserializeCode opts ck 0 cs (next_key e)"
  using onlyLine_focus[OF assms] by blast

theorem onlyLine_commands_witness:
  "\<exists>e'. onlyLine sample_deserializeCode
      \<lparr>containerType = ''code_block'', lineType = ''code_line'', allowMarks = False\<rparr>
      \<lparr>doc = Elem document 0 None
         [Elem block 20 (Some ''paragraph'') [Text 21 ''p'' []],
          Elem block 2 (Some ''code_block'')
            [Elem block 3 (Some ''code_line'') [Text 4 ''a'' []],
             Text 5 ''x'' [],
             Text 6 ''y'' [],
             Elem block 7 (Some ''code_line'') [Text 8 ''b'' []],
             Elem block 9 (Some ''paragraph'') [Text 10 ''q'' []]]],
       next_key = 30, commands = []\<rparr>
      \<lparr>code = CHILD_TYPE_INVALID,
       node = Elem block 2 (Some ''code_block'')
            [Elem block 3 (Some ''code_line'') [Text 4 ''a'' []],
             Text 5 ''x'' [],
             Text 6 ''y'' [],
             Elem block 7 (Some ''code_line'') [Text 8 ''b'' []],
             Elem block 9 (Some ''paragraph'') [Text 10 ''q'' []]],
       parent = None\<rparr> = Inr (ReturnsEditor, e') \<and>
     commands e' =
       [EnterWithoutNormalizing,
        InsertNodeByKey 2 1 (Elem block 33 (Some ''code_line'') [Text 32 ''xy'' []]),
        LeaveWithoutNormalizing,
        EnterWithoutNormalizing, RemoveNodeByKey 5, RemoveNodeByKey 6, LeaveWithoutNormalizing,
        EnterWithoutNormalizing,
        InsertNodeByKey 2 3 (Elem block 37 (Some ''code_line'') [Text 36 ''q'' []]),
        LeaveWithoutNormalizing,
        EnterWithoutNormalizing, RemoveNodeByKey 9, LeaveWithoutNormalizing]"
proof -
  let ?opts = "\<lparr>containerType = ''code_block'', lineType = ''code_line'', allowMarks = False\<rparr>"
  let ?cs = "[Elem block 3 (Some ''code_line'') [Text 4 ''a'' []],
             Text 5 ''x'' [],
             Text 6 ''y'' [],
             Elem block 7 (Some ''code_line'') [Text 8 ''b'' []],
             Elem block 9 (Some ''paragraph'') [Text 10 ''q'' []]]"
  let ?c = "Elem block 2 (Some ''code_block'') ?cs"
  let ?d = "Elem document 0 None [Elem block 20 (Some ''paragraph'') [Text 21 ''p'' []], ?c]"
  let ?e = "\<lparr>doc = ?d, next_key = 30, commands = []\<rparr>"
  let ?err = "\<lparr>code = CHILD_TYPE_INVALID, node = ?c, parent = None\<rparr>"
  have h1: "fresh_keys sample_deserializeCode ?opts" by (rule sample_deserializeCode_fresh)
  have h2: "getNode 2 (doc ?e) = Some (node ?err)" by code_simp
  have h3: "node_nodes (node ?err) = Some ?cs" by simp
  have h4: "distinct (all_keys (doc ?e))" by code_simp
  have h5: "\<forall>k\<in>set (all_keys (doc ?e)). k < next_key ?e" by code_simp
  have ev: "reline_commands sample_deserializeCode ?opts 2 0 ?cs (next_key ?e) =
       [EnterWithoutNormalizing,
        InsertNodeByKey 2 1 (Elem block 33 (Some ''code_line'') [Text 32 ''xy'' []]),
        LeaveWithoutNormalizing,
        EnterWithoutNormalizing, RemoveNodeByKey 5, RemoveNodeByKey 6, LeaveWithoutNormalizing,
        EnterWithoutNormalizing,
        InsertNodeByKey 2 3 (Elem block 37 (Some ''code_line'') [Text 36 ''q'' []]),
        LeaveWithoutNormalizing,
        EnterWithoutNormalizing, RemoveNodeByKey 9, LeaveWithoutNormalizing]"
    by code_simp
  from onlyLine_commands[OF h1 h2 h3 h4 h5] obtain e' where
    "onlyLine sample_deserializeCode ?opts ?e ?err = Inr (ReturnsEditor, e')"
    "commands e' = commands ?e @ reline_commands sample_deserializeCode ?opts 2 0 ?cs (next_key ?e)"
    by blast
  then show ?thesis unfolding ev by auto
qed

subsection \<open>The commands a repair issues\<close>

lemma new_commands_append: "commands e' = commands e @ cs \<Longrightarrow> new_commands e e' = cs"
  by (simp add: new_commands_def)

lemma insertNodeByKey_commands:
  "insertNodeByKey pk i n e = Inr e' \<Longrightarrow>
   commands e' = commands e @ [InsertNodeByKey pk i n] \<and> next_key e' = next_key e"
  by (auto simp: insertNodeByKey_def issue_def split: option.splits node.splits)

lemma removeNodeByKey_commands:
  "removeNodeByKey k e = Inr e' \<Longrightarrow>
   commands e' = commands e @ [RemoveNodeByKey k] \<and> next_key e' = next_key e"
  by (auto simp: removeNodeByKey_def issue_def split: if_splits)

lemma moveNodeByKey_commands:
  "moveNodeByKey k pk i e = Inr e' \<Longrightarrow>
   commands e' = commands e @ [MoveNodeByKey k pk i] \<and> next_key e' = next_key e"
  by (auto simp: moveNodeByKey_def issue_def Let_def split: option.splits node.splits if_splits)

lemma moveLines_commands:
  "moveLines ck ls i e = Inr e' \<Longrightarrow>
   \<exists>cs. commands e' = commands e @ cs \<and> length cs = length ls \<and>
     (\<forall>c\<in>set cs. inserted_node c = None) \<and> next_key e' = next_key e"
proof (induction ls arbitrary: i e)
  case Nil
  then show ?case by simp
next
  case (Cons l ls)
  from Cons.prems obtain e1 where m: "moveNodeByKey (node_key l) ck i e = Inr e1"
    and r: "moveLines ck ls (i + 1) e1 = Inr e'"
    by (auto split: sum.splits)
  from moveNodeByKey_commands[OF m] have c1: "commands e1 = commands e @ [MoveNodeByKey (node_key l) ck i]"
    and n1: "next_key e1 = next_key e" by simp_all
  from Cons.IH[OF r] obtain cs where cs: "commands e' = commands e1 @ cs" "length cs = length ls"
    "\<forall>c\<in>set cs. inserted_node c = None" "next_key e' = next_key e1" by blast
  let ?cs = "MoveNodeByKey (node_key l) ck i # cs"
  have "commands e' = commands e @ ?cs" using c1 cs(1) by simp
  moreover have "length ?cs = length (l # ls)" using cs(2) by simp
  moreover have "\<forall>c\<in>set ?cs. inserted_node c = None" using cs(3) by simp
  moreover have "next_key e' = next_key e" using cs(4) n1 by simp
  ultimately show ?case by blast
qed

lemma wrapGroup_commands:
  assumes "wrapGroup opts par pns g e = Inr e'"
  shows "\<exists>cs. commands e' = commands e @ cs \<and> length cs = Suc (length g) \<and>
     (\<forall>c\<in>set cs. \<forall>n. inserted_node c = Some n \<longrightarrow> is_new_container opts n)"
proof -
  let ?container = "Elem block (Suc (next_key e)) (Some (containerType opts)) []"
  let ?e1 = "e\<lparr>next_key := Suc (Suc (next_key e))\<rparr>"
  let ?i = "case first g of None \<Rightarrow> - 1 | Some l \<Rightarrow> indexOf pns l"
  from assms obtain e2 where i: "insertNodeByKey (node_key par) ?i ?container ?e1 = Inr e2"
    and m: "moveLines (Suc (next_key e)) g 0 e2 = Inr e'"
    by (auto simp: wrapGroup_def Block_create_def regenerateKey_def create_key_def
        split: sum.splits)
  from insertNodeByKey_commands[OF i]
  have c2: "commands e2 = commands e @ [InsertNodeByKey (node_key par) ?i ?container]" by simp
  from moveLines_commands[OF m] obtain cs where cs: "commands e' = commands e2 @ cs"
    "length cs = length g" "\<forall>c\<in>set cs. inserted_node c = None" by blast
  let ?cs = "InsertNodeByKey (node_key par) ?i ?container # cs"
  have "commands e' = commands e @ ?cs" using c2 cs(1) by simp
  moreover have "length ?cs = Suc (length g)" using cs(2) by simp
  moreover have "\<forall>c\<in>set ?cs. \<forall>n. inserted_node c = Some n \<longrightarrow> is_new_container opts n"
    using cs(3) by (simp add: is_new_container_def)
  ultimately show ?thesis by blast
qed

lemma wrapGroups_commands:
  "wrapGroups opts par pns gs e = Inr e' \<Longrightarrow>
   \<exists>cs. commands e' = commands e @ cs \<and> length cs = length gs + length (concat gs) \<and>
     (\<forall>c\<in>set cs. \<forall>n. inserted_node c = Some n \<longrightarrow> is_new_container opts n)"
proof (induction gs arbitrary: e)
  case Nil
  then show ?case by simp
next
  case (Cons g gs)
  from Cons.prems obtain e1 where w: "wrapGroup opts par pns g e = Inr e1"
    and r: "wrapGroups opts par pns gs e1 = Inr e'"
    by (auto split: sum.splits)
  from wrapGroup_commands[OF w] obtain cs1 where cs1: "commands e1 = commands e @ cs1"
    "length cs1 = Suc (length g)"
    "\<forall>c\<in>set cs1. \<forall>n. inserted_node c = Some n \<longrightarrow> is_new_container opts n" by blast
  from Cons.IH[OF r] obtain cs2 where cs2: "commands e' = commands e1 @ cs2"
    "length cs2 = length gs + length (concat gs)"
    "\<forall>c\<in>set cs2. \<forall>n. inserted_node c = Some n \<longrightarrow> is_new_container opts n" by blast
  have "commands e' = commands e @ (cs1 @ cs2)" using cs1(1) cs2(1) by simp
  moreover have "length (cs1 @ cs2) = length (g # gs) + length (concat (g # gs))"
    using cs1(2) cs2(2) by simp
  moreover have "\<forall>c\<in>set (cs1 @ cs2). \<forall>n. inserted_node c = Some n \<longrightarrow> is_new_container opts n"
    using cs1(3) cs2(3) by auto
  ultimately show ?case by blast
qed

lemma noOrphanLine_commands:
  assumes "noOrphanLine opts e error = Inr (rv, e')"
  shows "\<exists>par pns cs. parent error = Some par \<and> node_nodes par = Some pns \<and>
     rv = ReturnsUndefined \<and>
     commands e' = commands e @ [EnterWithoutNormalizing] @ cs @ [LeaveWithoutNormalizing] \<and>
     length cs = length (getSuccessiveNodes pns (isLine opts)) +
        length (concat (getSuccessiveNodes pns (isLine opts))) \<and>
     (\<forall>c\<in>set cs. \<forall>n. inserted_node c = Some n \<longrightarrow> is_new_container opts n)"
proof -
  from assms obtain par pns where p: "parent error = Some par" "node_nodes par = Some pns"
    by (auto simp: noOrphanLine_def split: option.splits)
  with assms obtain e1 where
    w: "wrapGroups opts par pns (getSuccessiveNodes pns (isLine opts))
          (issue EnterWithoutNormalizing e) = Inr e1"
    and e': "e' = issue LeaveWithoutNormalizing e1" and rv: "rv = ReturnsUndefined"
    by (auto simp: noOrphanLine_def withoutNormalizing_def split: sum.splits)
  from wrapGroups_commands[OF w] obtain cs where
    cs: "commands e1 = commands (issue EnterWithoutNormalizing e) @ cs"
    "length cs = length (getSuccessiveNodes pns (isLine opts)) +
        length (concat (getSuccessiveNodes pns (isLine opts)))"
    "\<forall>c\<in>set cs. \<forall>n. inserted_node c = Some n \<longrightarrow> is_new_container opts n" by blast
  have "commands e' = commands e @ [EnterWithoutNormalizing] @ cs @ [LeaveWithoutNormalizing]"
    using e' cs(1) by (simp add: issue_def)
  with p rv cs(2,3) show ?thesis by blast
qed

lemma node_marks_set_key: "node_marks (set_key k n) = node_marks n"
  by (cases n) simp_all

lemma node_key_set_key: "node_key (set_key k n) = k"
  by (cases n) simp_all

lemma insertCodeLines_commands:
  "insertCodeLines pk base cls index e = Inr e' \<Longrightarrow>
   \<exists>cs. commands e' = commands e @ cs \<and> length cs = length cls \<and>
     (\<forall>c\<in>set cs. \<forall>n. inserted_node c = Some n \<longrightarrow>
        (\<exists>l\<in>set cls. n = set_key (node_key n) l \<and> node_marks n = node_marks l))"
proof (induction cls arbitrary: index e)
  case Nil
  then show ?case by simp
next
  case (Cons c cls)
  let ?n = "set_key (next_key e) c"
  let ?e1 = "e\<lparr>next_key := Suc (next_key e)\<rparr>"
  from Cons.prems obtain e2 where
    i: "insertNodeByKey pk (base + index) ?n ?e1 = Inr e2"
    and r: "insertCodeLines pk base cls (index + 1) e2 = Inr e'"
    by (auto simp: regenerateKey_def create_key_def split: sum.splits)
  from insertNodeByKey_commands[OF i]
  have c2: "commands e2 = commands e @ [InsertNodeByKey pk (base + index) ?n]" by simp
  from Cons.IH[OF r] obtain cs where cs: "commands e' = commands e2 @ cs"
    "length cs = length cls"
    "\<forall>c\<in>set cs. \<forall>n. inserted_node c = Some n \<longrightarrow>
        (\<exists>l\<in>set cls. n = set_key (node_key n) l \<and> node_marks n = node_marks l)"
    by blast
  let ?cs = "InsertNodeByKey pk (base + index) ?n # cs"
  have "commands e' = commands e @ ?cs" using c2 cs(1) by simp
  moreover have "length ?cs = length (c # cls)" using cs(2) by simp
  moreover have "\<forall>x\<in>set ?cs. \<forall>n. inserted_node x = Some n \<longrightarrow>
        (\<exists>l\<in>set (c # cls). n = set_key (node_key n) l \<and> node_marks n = node_marks l)"
    using cs(3) by (auto simp: node_marks_set_key node_key_set_key)
  ultimately show ?case by blast
qed

lemma removeNodes_commands:
  "removeNodes g e = Inr e' \<Longrightarrow>
   \<exists>cs. commands e' = commands e @ cs \<and> length cs = length g \<and>
     (\<forall>c\<in>set cs. inserted_node c = None)"
proof (induction g arbitrary: e)
  case Nil
  then show ?case by simp
next
  case (Cons n g)
  from Cons.prems obtain e1 where m: "removeNodeByKey (node_key n) e = Inr e1"
    and r: "removeNodes g e1 = Inr e'"
    by (auto split: sum.splits)
  from removeNodeByKey_commands[OF m]
  have c1: "commands e1 = commands e @ [RemoveNodeByKey (node_key n)]" by simp
  from Cons.IH[OF r] obtain cs where cs: "commands e' = commands e1 @ cs" "length cs = length g"
    "\<forall>c\<in>set cs. inserted_node c = None" by blast
  let ?cs = "RemoveNodeByKey (node_key n) # cs"
  have "commands e' = commands e @ ?cs" using c1 cs(1) by simp
  moreover have "length ?cs = length (n # g)" using cs(2) by simp
  moreover have "\<forall>c\<in>set ?cs. inserted_node c = None" using cs(3) by simp
  ultimately show ?case by blast
qed

lemma relineGroup_commands:
  assumes "relineGroup deserializeCode opts g e = Inr e'"
  shows "\<exists>cs. commands e' = commands e @ cs \<and>
     (\<forall>c\<in>set cs. \<forall>n. inserted_node c = Some n \<longrightarrow> is_regenerated_line deserializeCode opts n)"
proof -
  let ?text = "concat (map node_text g)"
  obtain cb nk where d: "deserializeCode opts ?text (next_key e) = (cb, nk)"
    by (cases "deserializeCode opts ?text (next_key e)")
  let ?e0 = "e\<lparr>next_key := nk\<rparr>"
  from assms d have "\<exists>pk idx ls e1 e2.
      node_nodes cb = Some ls \<and>
      insertCodeLines pk idx ls 0
              (issue EnterWithoutNormalizing ?e0) = Inr e1 \<and>
      removeNodes g (issue EnterWithoutNormalizing (issue LeaveWithoutNormalizing e1)) = Inr e2 \<and>
      e' = issue LeaveWithoutNormalizing e2"
    by (auto simp: relineGroup_def withoutNormalizing_def Let_def
        split: option.splits sum.splits)
  then obtain pk idx ls e1 e2 where
    ls: "node_nodes cb = Some ls"
    and i: "insertCodeLines pk idx ls 0
              (issue EnterWithoutNormalizing ?e0) = Inr e1"
    and r: "removeNodes g (issue EnterWithoutNormalizing (issue LeaveWithoutNormalizing e1)) = Inr e2"
    and e': "e' = issue LeaveWithoutNormalizing e2"
    by blast
  from insertCodeLines_commands[OF i] obtain cs1 where cs1:
    "commands e1 = commands (issue EnterWithoutNormalizing ?e0) @ cs1"
    "\<forall>c\<in>set cs1. \<forall>n. inserted_node c = Some n \<longrightarrow>
        (\<exists>l\<in>set ls. n = set_key (node_key n) l \<and> node_marks n = node_marks l)"
    by blast
  from removeNodes_commands[OF r] obtain cs2 where cs2:
    "commands e2 = commands (issue EnterWithoutNormalizing (issue LeaveWithoutNormalizing e1)) @ cs2"
    "\<forall>c\<in>set cs2. inserted_node c = None"
    by blast
  have tl: "fst (textToLines deserializeCode opts ?text (next_key e)) = ls"
    using d ls by (simp add: textToLines_def)
  have reg: "\<forall>c\<in>set cs1. \<forall>n. inserted_node c = Some n \<longrightarrow>
      is_regenerated_line deserializeCode opts n"
  proof (intro ballI allI impI)
    fix c n
    assume "c \<in> set cs1" "inserted_node c = Some n"
    with cs1(2) obtain l where "l \<in> set ls" "n = set_key (node_key n) l"
      "node_marks n = node_marks l" by blast
    with tl show "is_regenerated_line deserializeCode opts n"
      unfolding is_regenerated_line_def by blast
  qed
  let ?cs = "[EnterWithoutNormalizing] @ cs1 @
      [LeaveWithoutNormalizing, EnterWithoutNormalizing] @ cs2 @ [LeaveWithoutNormalizing]"
  have "commands e' = commands e @ ?cs"
    using e' cs1(1) cs2(1) by (simp add: issue_def)
  moreover have "\<forall>c\<in>set ?cs. \<forall>n. inserted_node c = Some n \<longrightarrow>
      is_regenerated_line deserializeCode opts n"
    using reg cs2(2) by auto
  ultimately show ?thesis by blast
qed

lemma relineGroups_commands:
  "relineGroups deserializeCode opts gs e = Inr e' \<Longrightarrow>
   \<exists>cs. commands e' = commands e @ cs \<and>
     (\<forall>c\<in>set cs. \<forall>n. inserted_node c = Some n \<longrightarrow> is_regenerated_line deserializeCode opts n)"
proof (induction gs arbitrary: e)
  case Nil
  then show ?case by simp
next
  case (Cons g gs)
  from Cons.prems obtain e1 where w: "relineGroup deserializeCode opts g e = Inr e1"
    and r: "relineGroups deserializeCode opts gs e1 = Inr e'"
    by (auto split: sum.splits)
  from relineGroup_commands[OF w] obtain cs1 where cs1: "commands e1 = commands e @ cs1"
    "\<forall>c\<in>set cs1. \<forall>n. inserted_node c = Some n \<longrightarrow> is_regenerated_line deserializeCode opts n"
    by blast
  from Cons.IH[OF r] obtain cs2 where cs2: "commands e' = commands e1 @ cs2"
    "\<forall>c\<in>set cs2. \<forall>n. inserted_node c = Some n \<longrightarrow> is_regenerated_line deserializeCode opts n"
    by blast
  have "commands e' = commands e @ (cs1 @ cs2)" using cs1(1) cs2(1) by simp
  moreover have "\<forall>c\<in>set (cs1 @ cs2). \<forall>n. inserted_node c = Some n \<longrightarrow>
      is_regenerated_line deserializeCode opts n"
    using cs1(2) cs2(2) by auto
  ultimately show ?case by blast
qed

lemma onlyLine_new_commands:
  assumes "onlyLine deserializeCode opts e error = Inr (rv, e')"
  shows "rv = ReturnsEditor \<and>
     (\<forall>c\<in>set (new_commands e e'). \<forall>n. inserted_node c = Some n \<longrightarrow>
        is_regenerated_line deserializeCode opts n)"
proof -
  from assms obtain ns where
    r: "relineGroups deserializeCode opts
          (filter (\<lambda>g. g \<noteq> []) (getSuccessiveNodes ns (isNotLine opts))) e = Inr e'"
    and rv: "rv = ReturnsEditor"
    by (auto simp: onlyLine_def split: option.splits sum.splits)
  from relineGroups_commands[OF r] obtain cs where "commands e' = commands e @ cs"
    "\<forall>c\<in>set cs. \<forall>n. inserted_node c = Some n \<longrightarrow> is_regenerated_line deserializeCode opts n"
    by blast
  with rv show ?thesis by (simp add: new_commands_append)
qed

lemma noOrphanLine_new_commands:
  assumes "noOrphanLine opts e error = Inr (rv, e')"
  shows "\<forall>c\<in>set (new_commands e e'). \<forall>n. inserted_node c = Some n \<longrightarrow> is_new_container opts n"
proof -
  from noOrphanLine_commands[OF assms] obtain cs where
    c: "commands e' = commands e @ [EnterWithoutNormalizing] @ cs @ [LeaveWithoutNormalizing]"
    and p: "\<forall>c\<in>set cs. \<forall>n. inserted_node c = Some n \<longrightarrow> is_new_container opts n"
    by blast
  from c have "new_commands e e' = [EnterWithoutNormalizing] @ cs @ [LeaveWithoutNormalizing]"
    by (rule new_commands_append)
  with p show ?thesis by auto
qed

text \<open>
  C10. The rule that the schema declares for the line type has the property \<^verbatim>\<open>marks\<close>
  exactly when \<open>allowMarks\<close> is false, and then it is the empty list (no mark is allowed);
  with \<open>allowMarks\<close> true the property is not declared. Every node that \<open>noOrphanLine\<close>
  inserts is a block of the container type with no children and no marks. Every node that
  \<open>onlyLine\<close> inserts is a line that \<open>deserializeCode\<close> returned, with a new key and the
  marks it came with: the repair adds none.
\<close>

theorem marks_schema_and_repairs:
  "(\<exists>r. blocks (schema deserializeCode opts) (lineType opts) = Some r \<and>
      rule_marks r = (if allowMarks opts then None else Some [])) \<and>
   (noOrphanLine opts e error = Inr (rv, e') \<longrightarrow>
      (\<forall>c\<in>set (new_commands e e'). \<forall>n. inserted_node c = Some n \<longrightarrow> is_new_container opts n)) \<and>
   (onlyLine deserializeCode opts e error = Inr (rv, e') \<longrightarrow>
      (\<forall>c\<in>set (new_commands e e'). \<forall>n. inserted_node c = Some n \<longrightarrow>
         is_regenerated_line deserializeCode opts n))"
  using noOrphanLine_new_commands[of opts e error rv e']
    onlyLine_new_commands[of deserializeCode opts e error rv e']
  by (simp add: schema_line_rule)

theorem marks_schema_and_repairs_witness:
  "(\<exists>r. blocks (schema sample_deserializeCode
            \<lparr>containerType = ''code_block'', lineType = ''code_line'', allowMarks = False\<rparr>)
          ''code_line'' = Some r \<and> rule_marks r = Some []) \<and>
   is_new_container \<lparr>containerType = ''code_block'', lineType = ''code_line'', allowMarks = False\<rparr>
     (Elem block 4 (Some ''code_block'') []) \<and>
   is_regenerated_line sample_deserializeCode
     \<lparr>containerType = ''code_block'', lineType = ''code_line'', allowMarks = False\<rparr>
     (Elem block 13 (Some ''code_line'') [Text 12 ''x'' []])"
proof -
  let ?opts = "\<lparr>containerType = ''code_block'', lineType = ''code_line'', allowMarks = False\<rparr>"
  let ?l = "Elem block 2 (Some ''code_line'') [Text 3 ''a'' []]"
  let ?e1 = "\<lparr>doc = Elem document 0 None [?l], next_key = 3, commands = []\<rparr>"
  let ?err1 = "\<lparr>code = PARENT_TYPE_INVALID, node = ?l, parent = Some (Elem document 0 None [?l])\<rparr>"
  let ?e1' = "\<lparr>doc = Elem document 0 None [Elem block 4 (Some ''code_block'') [?l]],
       next_key = 5,
       commands = [EnterWithoutNormalizing,
            InsertNodeByKey 0 0 (Elem block 4 (Some ''code_block'') []),
            MoveNodeByKey 2 4 0, LeaveWithoutNormalizing]\<rparr>"
  let ?c = "Elem block 2 (Some ''code_block'') [Text 3 ''x'' []]"
  let ?e2 = "\<lparr>doc = Elem document 0 None [?c], next_key = 10, commands = []\<rparr>"
  let ?err2 = "\<lparr>code = CHILD_OBJECT_INVALID, node = ?c, parent = None\<rparr>"
  let ?e2' = "\<lparr>doc = Elem document 0 None
          [Elem block 2 (Some ''code_block'') [Elem block 13 (Some ''code_line'') [Text 12 ''x'' []]]],
       next_key = 14,
       commands = [EnterWithoutNormalizing,
            InsertNodeByKey 2 0 (Elem block 13 (Some ''code_line'') [Text 12 ''x'' []]),
            LeaveWithoutNormalizing, EnterWithoutNormalizing, RemoveNodeByKey 3,
            LeaveWithoutNormalizing]\<rparr>"
  have r1: "noOrphanLine ?opts ?e1 ?err1 = Inr (ReturnsUndefined, ?e1')" by code_simp
  have r2: "onlyLine sample_deserializeCode ?opts ?e2 ?err2 = Inr (ReturnsEditor, ?e2')"
    by code_simp
  have m1: "InsertNodeByKey 0 0 (Elem block 4 (Some ''code_block'') []) \<in> set (new_commands ?e1 ?e1')"
    by (simp add: new_commands_def)
  have m2: "InsertNodeByKey 2 0 (Elem block 13 (Some ''code_line'') [Text 12 ''x'' []])
      \<in> set (new_commands ?e2 ?e2')"
    by (simp add: new_commands_def)
  note t1 = marks_schema_and_repairs[of sample_deserializeCode ?opts ?e1 ?err1 ReturnsUndefined ?e1']
  note t2 = marks_schema_and_repairs[of sample_deserializeCode ?opts ?e2 ?err2 ReturnsEditor ?e2']
  from t1 r1 m1 have a: "is_new_container ?opts (Elem block 4 (Some ''code_block'') [])"
    by (metis inserted_node.simps(1))
  from t2 r2 m2 have b: "is_regenerated_line sample_deserializeCode ?opts
      (Elem block 13 (Some ''code_line'') [Text 12 ''x'' []])"
    by (metis inserted_node.simps(1))
  from t1 have c: "\<exists>r. blocks (schema sample_deserializeCode ?opts) ''code_line'' = Some r \<and>
      rule_marks r = Some []"
    by simp
  from a b c show ?thesis by blast
qed

subsection \<open>Size of the grouper's result\<close>

lemma length_le_concat: "\<forall>g\<in>set gs. g \<noteq> [] \<Longrightarrow> length gs \<le> length (concat gs)"
proof (induction gs)
  case Nil
  then show ?case by simp
next
  case (Cons g gs)
  then have "Suc 0 \<le> length g" "length gs \<le> length (concat gs)"
    by (simp_all add: Suc_le_eq)
  then have "Suc (length gs) \<le> length g + length (concat gs)" by arith
  then show ?case by simp
qed

lemma getSuccessiveNodes_sizes:
  "length (concat (getSuccessiveNodes nodes match)) \<le> length nodes"
  "length (getSuccessiveNodes nodes match) \<le> length nodes"
proof -
  show a: "length (concat (getSuccessiveNodes nodes match)) \<le> length nodes"
    by (simp add: concat_getSuccessiveNodes)
  have "\<forall>g\<in>set (getSuccessiveNodes nodes match). g \<noteq> []"
    using getSuccessiveNodes_groups by blast
  then have "length (getSuccessiveNodes nodes match) \<le> length (concat (getSuccessiveNodes nodes match))"
    by (rule length_le_concat)
  with a show "length (getSuccessiveNodes nodes match) \<le> length nodes" by simp
qed

lemma noOrphanLine_command_count:
  assumes "noOrphanLine opts e error = Inr (rv, e')"
  shows "\<exists>par pns. parent error = Some par \<and> node_nodes par = Some pns \<and>
     length (new_commands e e') \<le> 2 + 2 * length pns"
proof -
  from noOrphanLine_commands[OF assms] obtain par pns cs where
    p: "parent error = Some par" "node_nodes par = Some pns"
    and c: "commands e' = commands e @ [EnterWithoutNormalizing] @ cs @ [LeaveWithoutNormalizing]"
    and l: "length cs = length (getSuccessiveNodes pns (isLine opts)) +
        length (concat (getSuccessiveNodes pns (isLine opts)))"
    by blast
  from c have "new_commands e e' = [EnterWithoutNormalizing] @ cs @ [LeaveWithoutNormalizing]"
    by (rule new_commands_append)
  then have "length (new_commands e e') = 2 + length cs" by simp
  with l getSuccessiveNodes_sizes[of pns "isLine opts"]
  have "length (new_commands e e') \<le> 2 + 2 * length pns" by simp
  with p show ?thesis by blast
qed

subsection \<open>noOrphanLine on a well-formed document\<close>

lemma plug_extend: "plug (extend C ob pk ty A B) n = plug C (Elem ob pk ty (A @ n # B))"
  by (induction C) simp_all

lemma set_ctx_keys_extend:
  "set (ctx_keys (extend C ob pk ty A B)) =
     set (ctx_keys C) \<union> {pk} \<union> set (keys_of A) \<union> set (keys_of B)"
  by (induction C) auto

lemma getNode_self: "getNode (node_key n) n = Some n"
  by (cases n) simp_all

lemma getNode_plug_any:
  "node_key n \<notin> set (ctx_keys C) \<Longrightarrow> getNode (node_key n) (plug C n) = Some n"
proof (induction C)
  case Hole
  then show ?case by (simp add: getNode_self)
next
  case (Down ob' k' ty' l C r)
  have "\<And>x. x \<in> set l \<Longrightarrow> getNode (node_key n) x = None"
    using Down.prems absent_in_list[of "node_key n" l] by (simp add: getNode_absent)
  then have "first_some (map (getNode (node_key n)) (l @ plug C n # r)) =
      first_some (map (getNode (node_key n)) (plug C n # r))"
    by (rule first_some_append)
  also have "\<dots> = Some n"
    using Down by simp
  finally show ?case using Down.prems by simp
qed

lemma child_key_fresh:
  assumes "distinct (ctx_keys C @ pk # keys_of (A @ c # B))"
  shows "node_key c \<notin> set (ctx_keys (extend C ob pk ty A B))"
proof -
  have "node_key c \<in> set (all_keys c)" by (rule node_key_in_all_keys)
  with assms show ?thesis by (auto simp: set_ctx_keys_extend)
qed

lemma getNode_child:
  assumes "distinct (ctx_keys C @ pk # keys_of cur)" and "c \<in> set cur"
  shows "getNode (node_key c) (plug C (Elem ob pk ty cur)) = Some c"
proof -
  from split_list[OF assms(2)] obtain A B where cur: "cur = A @ c # B" by blast
  from assms(1) cur have "node_key c \<notin> set (ctx_keys (extend C ob pk ty A B))"
    using child_key_fresh by blast
  then have "getNode (node_key c) (plug (extend C ob pk ty A B) c) = Some c"
    by (rule getNode_plug_any)
  then show ?thesis by (simp add: plug_extend cur)
qed

lemma insertNode_child:
  assumes "distinct (ctx_keys C @ pk # keys_of (X @ Elem ob' K ty' kids # Y))"
  shows "insertNode K i l (plug C (Elem ob pk ty (X @ Elem ob' K ty' kids # Y))) =
     plug C (Elem ob pk ty (X @ Elem ob' K ty' (splice_insert i l kids) # Y))"
proof -
  have "node_key (Elem ob' K ty' kids) \<notin> set (ctx_keys (extend C ob pk ty X Y))"
    using assms by (rule child_key_fresh)
  then have "K \<notin> set (ctx_keys (extend C ob pk ty X Y))" by simp
  then have "insertNode K i l (plug (extend C ob pk ty X Y) (Elem ob' K ty' kids)) =
      plug (extend C ob pk ty X Y) (Elem ob' K ty' (splice_insert i l kids))"
    by (rule insertNode_plug)
  then show ?thesis by (simp add: plug_extend)
qed

lemma removeNode_focus:
  assumes "distinct (ctx_keys C @ ck # keys_of (A @ n # B))"
  shows "removeNode (node_key n) (plug C (Elem ob ck ty (A @ n # B))) =
     plug C (Elem ob ck ty (A @ B))"
proof -
  let ?k = "node_key n"
  have kn: "?k \<in> set (all_keys n)" by (rule node_key_in_all_keys)
  with assms have k1: "?k \<notin> set (ctx_keys C)" "?k \<noteq> ck"
    "?k \<notin> set (keys_of A)" "?k \<notin> set (keys_of B)"
    by auto
  have others: "\<And>c. c \<in> set A \<union> set B \<Longrightarrow> ?k \<notin> set (all_keys c)"
    using k1(3,4) absent_in_list[of ?k A] absent_in_list[of ?k B] by auto
  then have "\<And>c. c \<in> set A \<union> set B \<Longrightarrow> node_key c \<noteq> ?k"
    using node_key_in_all_keys by metis
  then have f: "filter (\<lambda>c. node_key c \<noteq> ?k) A = A" "filter (\<lambda>c. node_key c \<noteq> ?k) B = B"
    by (simp_all add: filter_id_conv)
  have "\<And>c. c \<in> set A \<union> set B \<Longrightarrow> removeNode ?k c = c"
    using others by (simp add: removeNode_absent)
  then have m: "map (removeNode ?k) A = A" "map (removeNode ?k) B = B"
    by (simp_all add: map_idI)
  show ?thesis
    using removeNode_plug[OF k1(1,2), of ob ty "A @ n # B"] f m by simp
qed

lemma mset_keys_splice:
  "mset (keys_of (splice_insert i l kids)) = mset (all_keys l) + mset (keys_of kids)"
proof -
  let ?j = "resolveBegin i (length kids)"
  have "mset (keys_of (take ?j kids)) + mset (keys_of (drop ?j kids)) = mset (keys_of kids)"
    by (metis append_take_drop_id keys_of_simps(3) mset_append)
  then show ?thesis by (simp add: splice_insert_def Let_def ac_simps)
qed

lemma wf_focus_mset:
  assumes "mset (keys_of cur') = mset (keys_of cur)"
  shows "wf_focus C pk cur' nk = wf_focus C pk cur nk"
proof -
  have m: "mset (ctx_keys C @ pk # keys_of cur') = mset (ctx_keys C @ pk # keys_of cur)"
    using assms by simp
  then have "distinct (ctx_keys C @ pk # keys_of cur') = distinct (ctx_keys C @ pk # keys_of cur)"
    by (rule mset_eq_imp_distinct_iff)
  moreover have "set (ctx_keys C @ pk # keys_of cur') = set (ctx_keys C @ pk # keys_of cur)"
    using m by (rule mset_eq_setD)
  ultimately show ?thesis by (simp only: wf_focus_def)
qed

lemma set_splice_insert: "set (splice_insert i v xs) = insert v (set xs)"
proof -
  let ?j = "resolveBegin i (length xs)"
  have "set (take ?j xs) \<union> set (drop ?j xs) = set xs"
    by (metis append_take_drop_id set_append)
  then show ?thesis by (auto simp: splice_insert_def Let_def)
qed

lemma keys_inj:
  "distinct (keys_of cur) \<Longrightarrow> x \<in> set cur \<Longrightarrow> y \<in> set cur \<Longrightarrow>
   node_key x = node_key y \<Longrightarrow> x = y"
proof (induction cur)
  case Nil
  then show ?case by simp
next
  case (Cons a cur)
  have d: "distinct (keys_of cur)" "set (all_keys a) \<inter> set (keys_of cur) = {}"
    using Cons.prems(1) by auto
  have out: "\<And>z. z \<in> set cur \<Longrightarrow> node_key z \<noteq> node_key a"
  proof
    fix z
    assume z: "z \<in> set cur" "node_key z = node_key a"
    have "node_key z \<in> set (keys_of cur)"
      using z(1) node_key_in_all_keys[of z] in_keys_of[of z cur] by blast
    moreover have "node_key a \<in> set (all_keys a)" by (rule node_key_in_all_keys)
    ultimately show False using d(2) z(2) by auto
  qed
  show ?case
  proof (cases "x = a")
    case True
    show ?thesis
    proof (cases "y = a")
      case True
      with \<open>x = a\<close> show ?thesis by simp
    next
      case False
      with Cons.prems(3) have "y \<in> set cur" by simp
      with out[of y] True Cons.prems(4) show ?thesis by simp
    qed
  next
    case False
    with Cons.prems(2) have xc: "x \<in> set cur" by simp
    show ?thesis
    proof (cases "y = a")
      case True
      with out[of x] xc Cons.prems(4) show ?thesis by simp
    next
      case False
      with Cons.prems(3) have "y \<in> set cur" by simp
      with Cons.IH[OF d(1) xc] Cons.prems(4) show ?thesis by blast
    qed
  qed
qed

lemma distinct_children: "distinct (keys_of cur) \<Longrightarrow> distinct cur"
proof (induction cur)
  case Nil
  then show ?case by simp
next
  case (Cons a cur)
  have d: "distinct (keys_of cur)" "set (all_keys a) \<inter> set (keys_of cur) = {}"
    using Cons.prems(1) by auto
  have "a \<notin> set cur"
  proof
    assume "a \<in> set cur"
    then have "node_key a \<in> set (keys_of cur)"
      using node_key_in_all_keys[of a] in_keys_of[of a cur] by blast
    moreover have "node_key a \<in> set (all_keys a)" by (rule node_key_in_all_keys)
    ultimately show False using d(2) by auto
  qed
  with Cons.IH[OF d(1)] show ?case by simp
qed

lemma moveNodeByKey_focus:
  assumes d: "doc e = plug C (Elem ob pk ty cur)"
    and dist: "distinct (ctx_keys C @ pk # keys_of cur)"
    and l: "l \<in> set cur" and c: "Elem ob' K ty' kids \<in> set cur" and ne: "node_key l \<noteq> K"
  shows "\<exists>cur'. moveNodeByKey (node_key l) K i e =
        Inr (e\<lparr>doc := plug C (Elem ob pk ty cur'),
                commands := commands e @ [MoveNodeByKey (node_key l) K i]\<rparr>) \<and>
     mset (keys_of cur') = mset (keys_of cur) \<and>
     Elem ob' K ty' (splice_insert i l kids) \<in> set cur' \<and>
     (\<forall>x\<in>set cur. x \<noteq> l \<longrightarrow> x \<noteq> Elem ob' K ty' kids \<longrightarrow> x \<in> set cur')"
proof -
  let ?cont = "Elem ob' K ty' kids"
  let ?cont' = "Elem ob' K ty' (splice_insert i l kids)"
  let ?k = "node_key l"
  from split_list[OF l] obtain A B where cur: "cur = A @ l # B" by blast
  have g1: "getNode ?k (doc e) = Some l"
    using getNode_child[OF dist l] d by simp
  have g2: "getNode K (doc e) = Some ?cont"
    using getNode_child[OF dist c, of ob ty] d by simp
  have kl: "?k \<in> set (all_keys l)" by (rule node_key_in_all_keys)
  have k1: "?k \<notin> set (ctx_keys C)" "?k \<noteq> pk"
    using dist cur kl by auto
  have root: "?k \<noteq> node_key (doc e)"
    using node_key_plug[of C "Elem ob pk ty cur"] k1 d by auto
  have rem: "removeNode ?k (doc e) = plug C (Elem ob pk ty (A @ B))"
    using removeNode_focus[of C pk A l B ob ty] dist cur d by simp
  have "?cont \<noteq> l" using ne by auto
  with c cur have "?cont \<in> set (A @ B)" by auto
  from split_list[OF this] obtain X Y where ab: "A @ B = X @ ?cont # Y" by blast
  have dist2: "distinct (ctx_keys C @ pk # keys_of (A @ B))"
    using dist cur by auto
  then have dist3: "distinct (ctx_keys C @ pk # keys_of (X @ ?cont # Y))"
    using ab by simp
  have g3: "getNode K (plug C (Elem ob pk ty (A @ B))) = Some ?cont"
    using getNode_child[OF dist3, of ?cont ob ty] ab by simp
  have ins: "insertNode K i l (plug C (Elem ob pk ty (A @ B))) =
      plug C (Elem ob pk ty (X @ ?cont' # Y))"
    using insertNode_child[OF dist3, of i l ob ty] ab by simp
  let ?cur' = "X @ ?cont' # Y"
  have r: "moveNodeByKey ?k K i e =
        Inr (e\<lparr>doc := plug C (Elem ob pk ty ?cur'),
                commands := commands e @ [MoveNodeByKey ?k K i]\<rparr>)"
    using g1 g2 ne root rem g3 ins by (simp add: moveNodeByKey_def issue_def)
  have "mset (keys_of ?cur') = mset (keys_of (X @ ?cont # Y)) + mset (all_keys l)"
    by (simp add: mset_keys_splice)
  also have "\<dots> = mset (keys_of (A @ B)) + mset (all_keys l)" using ab by simp
  also have "\<dots> = mset (keys_of cur)" using cur by simp
  finally have m: "mset (keys_of ?cur') = mset (keys_of cur)" .
  have others: "\<forall>x\<in>set cur. x \<noteq> l \<longrightarrow> x \<noteq> ?cont \<longrightarrow> x \<in> set ?cur'"
  proof (intro ballI impI)
    fix x
    assume "x \<in> set cur" "x \<noteq> l" "x \<noteq> ?cont"
    then have "x \<in> set (A @ B)" using cur by auto
    then have "x \<in> set (X @ ?cont # Y)" using ab by simp
    with \<open>x \<noteq> ?cont\<close> show "x \<in> set ?cur'" by auto
  qed
  have "?cont' \<in> set ?cur'" by simp
  with r m others show ?thesis by blast
qed

lemma moveLines_focus:
  "doc e = plug C (Elem ob pk ty cur) \<Longrightarrow> distinct (ctx_keys C @ pk # keys_of cur) \<Longrightarrow>
   Elem ob' K ty' kids \<in> set cur \<Longrightarrow> set M \<subseteq> set cur \<Longrightarrow> distinct M \<Longrightarrow>
   \<forall>m\<in>set M. node_key m \<noteq> K \<Longrightarrow>
   \<exists>e' cur'. moveLines K M (int (length kids)) e = Inr e' \<and>
      doc e' = plug C (Elem ob pk ty cur') \<and> next_key e' = next_key e \<and>
      mset (keys_of cur') = mset (keys_of cur) \<and>
      Elem ob' K ty' (kids @ M) \<in> set cur' \<and>
      (\<forall>x\<in>set cur. x \<notin> set M \<longrightarrow> x \<noteq> Elem ob' K ty' kids \<longrightarrow> x \<in> set cur')"
proof (induction M arbitrary: e cur kids)
  case Nil
  then show ?case by auto
next
  case (Cons m M)
  let ?cont = "Elem ob' K ty' kids"
  let ?cont1 = "Elem ob' K ty' (kids @ [m])"
  have mc: "m \<in> set cur" and mk: "node_key m \<noteq> K" using Cons.prems(4,6) by auto
  from moveNodeByKey_focus[OF Cons.prems(1,2) mc Cons.prems(3) mk, of "int (length kids)"]
  obtain cur1 where
    r1: "moveNodeByKey (node_key m) K (int (length kids)) e =
        Inr (e\<lparr>doc := plug C (Elem ob pk ty cur1),
                commands := commands e @ [MoveNodeByKey (node_key m) K (int (length kids))]\<rparr>)"
    and m1: "mset (keys_of cur1) = mset (keys_of cur)"
    and c1: "Elem ob' K ty' (splice_insert (int (length kids)) m kids) \<in> set cur1"
    and o1: "\<forall>x\<in>set cur. x \<noteq> m \<longrightarrow> x \<noteq> ?cont \<longrightarrow> x \<in> set cur1"
    by blast
  let ?e1 = "e\<lparr>doc := plug C (Elem ob pk ty cur1),
                commands := commands e @ [MoveNodeByKey (node_key m) K (int (length kids))]\<rparr>"
  have sp: "splice_insert (int (length kids)) m kids = kids @ [m]"
    using splice_insert_at[of kids m "[]"] by simp
  have c1': "?cont1 \<in> set cur1" using c1 sp by simp
  have d1: "doc ?e1 = plug C (Elem ob pk ty cur1)" by simp
  have dist1: "distinct (ctx_keys C @ pk # keys_of cur1)"
  proof -
    have "mset (ctx_keys C @ pk # keys_of cur1) = mset (ctx_keys C @ pk # keys_of cur)"
      using m1 by simp
    from mset_eq_imp_distinct_iff[OF this] Cons.prems(2) show ?thesis by simp
  qed
  have dk: "distinct (keys_of cur)" using Cons.prems(2) by simp
  have notK: "\<And>x. x \<in> set cur \<Longrightarrow> x \<noteq> ?cont \<Longrightarrow> node_key x \<noteq> K"
    using keys_inj[OF dk _ Cons.prems(3)] by fastforce
  have sub1: "set M \<subseteq> set cur1"
  proof
    fix x
    assume x: "x \<in> set M"
    then have "x \<in> set cur" "x \<noteq> m" "node_key x \<noteq> K"
      using Cons.prems(4,5,6) by auto
    moreover from this have "x \<noteq> ?cont" by auto
    ultimately show "x \<in> set cur1" using o1 by blast
  qed
  have dM: "distinct M" and kM: "\<forall>x\<in>set M. node_key x \<noteq> K"
    using Cons.prems(5,6) by auto
  have len: "int (length (kids @ [m])) = int (length kids) + 1" by simp
  from Cons.IH[OF d1 dist1 c1' sub1 dM kM] obtain e' cur' where
    r2: "moveLines K M (int (length (kids @ [m]))) ?e1 = Inr e'"
    and d2: "doc e' = plug C (Elem ob pk ty cur')"
    and n2: "next_key e' = next_key ?e1"
    and m2: "mset (keys_of cur') = mset (keys_of cur1)"
    and c2: "Elem ob' K ty' ((kids @ [m]) @ M) \<in> set cur'"
    and o2: "\<forall>x\<in>set cur1. x \<notin> set M \<longrightarrow> x \<noteq> ?cont1 \<longrightarrow> x \<in> set cur'"
    by blast
  have r2': "moveLines K M (int (length kids) + 1) ?e1 = Inr e'"
    using r2 by (simp add: add.commute)
  have r: "moveLines K (m # M) (int (length kids)) e = Inr e'"
    using r1 r2' by simp
  have others: "\<forall>x\<in>set cur. x \<notin> set (m # M) \<longrightarrow> x \<noteq> ?cont \<longrightarrow> x \<in> set cur'"
  proof (intro ballI impI)
    fix x
    assume x: "x \<in> set cur" "x \<notin> set (m # M)" "x \<noteq> ?cont"
    then have "x \<in> set cur1" using o1 by auto
    moreover have "x \<noteq> ?cont1" using notK[OF x(1,3)] by auto
    ultimately show "x \<in> set cur'" using o2 x(2) by auto
  qed
  from r d2 n2 m1 m2 c2 others show ?case by auto
qed

lemma wrapGroup_focus:
  assumes d: "doc e = plug C (Elem ob pk ty cur)"
    and wf: "wf_focus C pk cur (next_key e)"
    and pk: "node_key par = pk"
    and sub: "set g \<subseteq> set cur" and dg: "distinct g"
  shows "\<exists>e' cur'. wrapGroup opts par pns g e = Inr e' \<and>
      doc e' = plug C (Elem ob pk ty cur') \<and> wf_focus C pk cur' (next_key e') \<and>
      Elem block (Suc (next_key e)) (Some (containerType opts)) g \<in> set cur' \<and>
      (\<forall>x\<in>set cur. x \<notin> set g \<longrightarrow> x \<in> set cur')"
proof -
  let ?K = "Suc (next_key e)"
  let ?cont = "Elem block ?K (Some (containerType opts)) []"
  let ?i = "case first g of None \<Rightarrow> - 1 | Some l \<Rightarrow> indexOf pns l"
  let ?e1 = "e\<lparr>next_key := Suc (Suc (next_key e))\<rparr>"
  let ?cur1 = "splice_insert ?i ?cont cur"
  let ?e2 = "issue (InsertNodeByKey pk ?i ?cont) (?e1\<lparr>doc := plug C (Elem ob pk ty ?cur1)\<rparr>)"
  from wf have dist: "distinct (ctx_keys C @ pk # keys_of cur)"
    and bound: "\<forall>k\<in>set (ctx_keys C @ pk # keys_of cur). k < next_key e"
    by (simp_all add: wf_focus_def)
  have pkC: "pk \<notin> set (ctx_keys C)" using dist by auto
  have ins: "insertNodeByKey pk ?i ?cont ?e1 = Inr ?e2"
    using d pkC by (simp add: insertNodeByKey_def getNode_plug insertNode_plug)
  have d2: "doc ?e2 = plug C (Elem ob pk ty ?cur1)" by (simp add: issue_def)
  have m1: "mset (keys_of ?cur1) = add_mset ?K (mset (keys_of cur))"
    by (simp add: mset_keys_splice)
  have fresh: "?K \<notin> set (ctx_keys C @ pk # keys_of cur)"
    using bound by fastforce
  have dist1: "distinct (ctx_keys C @ pk # keys_of ?cur1)"
  proof -
    have "mset (ctx_keys C @ pk # keys_of ?cur1) = mset (?K # ctx_keys C @ pk # keys_of cur)"
      using m1 by simp
    from mset_eq_imp_distinct_iff[OF this] dist fresh show ?thesis by simp
  qed
  have set1: "set (keys_of ?cur1) = insert ?K (set (keys_of cur))"
    using mset_eq_setD[of "keys_of ?cur1" "?K # keys_of cur"] m1 by simp
  have c1: "?cont \<in> set ?cur1" by (simp add: set_splice_insert)
  have sub1: "set g \<subseteq> set ?cur1" using sub by (auto simp: set_splice_insert)
  have kg: "\<forall>m\<in>set g. node_key m \<noteq> ?K"
  proof
    fix m
    assume "m \<in> set g"
    then have "m \<in> set cur" using sub by auto
    then have "node_key m \<in> set (keys_of cur)"
      using node_key_in_all_keys[of m] in_keys_of[of m cur] by blast
    with bound have "node_key m < next_key e" by simp
    then show "node_key m \<noteq> ?K" by simp
  qed
  from moveLines_focus[OF d2 dist1 c1 sub1 dg kg] obtain e' cur' where
    r: "moveLines ?K g (int (length ([] :: node list))) ?e2 = Inr e'"
    and d': "doc e' = plug C (Elem ob pk ty cur')"
    and n': "next_key e' = next_key ?e2"
    and m': "mset (keys_of cur') = mset (keys_of ?cur1)"
    and c': "Elem block ?K (Some (containerType opts)) ([] @ g) \<in> set cur'"
    and o': "\<forall>x\<in>set ?cur1. x \<notin> set g \<longrightarrow> x \<noteq> ?cont \<longrightarrow> x \<in> set cur'"
    by blast
  have w: "wrapGroup opts par pns g e = Inr e'"
    using ins r pk
    by (simp add: wrapGroup_def Block_create_def regenerateKey_def create_key_def)
  have nk: "next_key e' = Suc (Suc (next_key e))" using n' by (simp add: issue_def)
  have wf1: "wf_focus C pk ?cur1 (next_key e')"
  proof -
    have "\<forall>k\<in>set (ctx_keys C @ pk # keys_of ?cur1). k < next_key e'"
    proof
      fix k
      assume "k \<in> set (ctx_keys C @ pk # keys_of ?cur1)"
      then have "k = ?K \<or> k \<in> set (ctx_keys C @ pk # keys_of cur)"
        using set1 by auto
      then show "k < next_key e'"
      proof
        assume "k = ?K"
        then show ?thesis using nk by simp
      next
        assume "k \<in> set (ctx_keys C @ pk # keys_of cur)"
        with bound have "k < next_key e" by blast
        then show ?thesis using nk by simp
      qed
    qed
    with dist1 show ?thesis by (simp add: wf_focus_def)
  qed
  have wf': "wf_focus C pk cur' (next_key e')"
    using wf_focus_mset[OF m'] wf1 by simp
  have others: "\<forall>x\<in>set cur. x \<notin> set g \<longrightarrow> x \<in> set cur'"
  proof (intro ballI impI)
    fix x
    assume x: "x \<in> set cur" "x \<notin> set g"
    then have "node_key x \<in> set (keys_of cur)"
      using node_key_in_all_keys[of x] in_keys_of[of x cur] by blast
    with bound have "node_key x < next_key e" by simp
    then have "x \<noteq> ?cont" by auto
    moreover have "x \<in> set ?cur1" using x(1) by (simp add: set_splice_insert)
    ultimately show "x \<in> set cur'" using o' x(2) by blast
  qed
  from w d' wf' c' others show ?thesis by auto
qed

lemma wrapGroups_focus:
  "doc e = plug C (Elem ob pk ty cur) \<Longrightarrow> wf_focus C pk cur (next_key e) \<Longrightarrow>
   node_key par = pk \<Longrightarrow> set (concat gs) \<subseteq> set cur \<Longrightarrow> distinct (concat gs) \<Longrightarrow>
   \<exists>e' cur'. wrapGroups opts par pns gs e = Inr e' \<and>
      doc e' = plug C (Elem ob pk ty cur') \<and> wf_focus C pk cur' (next_key e') \<and>
      (\<forall>g\<in>set gs. \<exists>K. Elem block K (Some (containerType opts)) g \<in> set cur') \<and>
      (\<forall>x\<in>set cur. x \<notin> set (concat gs) \<longrightarrow> x \<in> set cur')"
proof (induction gs arbitrary: e cur)
  case Nil
  then show ?case by auto
next
  case (Cons g gs)
  let ?K = "Suc (next_key e)"
  let ?cont = "Elem block ?K (Some (containerType opts)) g"
  have sub: "set g \<subseteq> set cur" and dg: "distinct g"
    and disj: "set g \<inter> set (concat gs) = {}"
    using Cons.prems(4,5) by auto
  from wrapGroup_focus[OF Cons.prems(1,2,3) sub dg, of opts pns] obtain e1 cur1 where
    w1: "wrapGroup opts par pns g e = Inr e1"
    and d1: "doc e1 = plug C (Elem ob pk ty cur1)"
    and wf1: "wf_focus C pk cur1 (next_key e1)"
    and c1: "?cont \<in> set cur1"
    and o1: "\<forall>x\<in>set cur. x \<notin> set g \<longrightarrow> x \<in> set cur1"
    by blast
  have sub1: "set (concat gs) \<subseteq> set cur1"
  proof
    fix x
    assume x: "x \<in> set (concat gs)"
    then have "x \<in> set cur" using Cons.prems(4) by auto
    moreover have "x \<notin> set g" using x disj by auto
    ultimately show "x \<in> set cur1" using o1 by blast
  qed
  have dgs: "distinct (concat gs)" using Cons.prems(5) by simp
  from Cons.IH[OF d1 wf1 Cons.prems(3) sub1 dgs] obtain e' cur' where
    w2: "wrapGroups opts par pns gs e1 = Inr e'"
    and d2: "doc e' = plug C (Elem ob pk ty cur')"
    and wf2: "wf_focus C pk cur' (next_key e')"
    and c2: "\<forall>g\<in>set gs. \<exists>K. Elem block K (Some (containerType opts)) g \<in> set cur'"
    and o2: "\<forall>x\<in>set cur1. x \<notin> set (concat gs) \<longrightarrow> x \<in> set cur'"
    by blast
  have bound: "\<forall>k\<in>set (keys_of cur). k < next_key e"
    using Cons.prems(2) by (simp add: wf_focus_def)
  have "?cont \<notin> set (concat gs)"
  proof
    assume "?cont \<in> set (concat gs)"
    then have "?cont \<in> set cur" using Cons.prems(4) by auto
    then have "node_key ?cont \<in> set (keys_of cur)"
      using node_key_in_all_keys[of ?cont] in_keys_of[of ?cont cur] by blast
    with bound have "node_key ?cont < next_key e" by blast
    then show False by simp
  qed
  with c1 o2 have cg: "?cont \<in> set cur'" by blast
  have "wrapGroups opts par pns (g # gs) e = Inr e'" using w1 w2 by simp
  moreover have "\<forall>h\<in>set (g # gs). \<exists>K. Elem block K (Some (containerType opts)) h \<in> set cur'"
    using cg c2 by auto
  moreover have "\<forall>x\<in>set cur. x \<notin> set (concat (g # gs)) \<longrightarrow> x \<in> set cur'"
    using o1 o2 by auto
  ultimately show ?case using d2 wf2 by blast
qed

lemma noOrphanLine_focus:
  assumes p: "parent error = Some par"
    and g: "getNode pk (doc e) = Some par"
    and n: "node_nodes par = Some pns"
    and dist: "distinct (all_keys (doc e))"
    and bound: "\<forall>k\<in>set (all_keys (doc e)). k < next_key e"
  shows "\<exists>e' C ob ty cur'.
      noOrphanLine opts e error = Inr (ReturnsUndefined, e') \<and>
      par = Elem ob pk ty pns \<and>
      doc e = plug C (Elem ob pk ty pns) \<and>
      doc e' = plug C (Elem ob pk ty cur') \<and>
      getNode pk (doc e') = Some (Elem ob pk ty cur') \<and>
      (\<forall>g\<in>set (getSuccessiveNodes pns (isLine opts)).
         \<exists>K. Elem block K (Some (containerType opts)) g \<in> set cur') \<and>
      (\<forall>x\<in>set pns. \<not> isLine opts x \<longrightarrow> x \<in> set cur') \<and>
      distinct (all_keys (doc e')) \<and> (\<forall>k\<in>set (all_keys (doc e')). k < next_key e')"
proof -
  let ?gs = "getSuccessiveNodes pns (isLine opts)"
  from n obtain ob k ty where pe: "par = Elem ob k ty pns" by (cases par) auto
  from getNode_key[OF g] pe have k: "k = pk" by simp
  from getNode_ctx[OF g] obtain C where C: "doc e = plug C (Elem ob pk ty pns)"
    using pe k by auto
  from distinct_all_keys_plug[of C "Elem ob pk ty pns"] dist C
  have d: "distinct (ctx_keys C @ pk # keys_of pns)" by simp
  have "\<forall>k\<in>set (ctx_keys C @ pk # keys_of pns). k < next_key e"
    using bound C by (simp add: set_all_keys_plug)
  with d have wf: "wf_focus C pk pns (next_key (issue EnterWithoutNormalizing e))"
    by (simp add: wf_focus_def issue_def)
  have d0: "doc (issue EnterWithoutNormalizing e) = plug C (Elem ob pk ty pns)"
    using C by (simp add: issue_def)
  have cc: "concat ?gs = filter (isLine opts) pns" by (rule concat_getSuccessiveNodes)
  have sub: "set (concat ?gs) \<subseteq> set pns" using cc by auto
  have "distinct pns" using d distinct_children by simp
  then have dc: "distinct (concat ?gs)" using cc by simp
  have pkey: "node_key par = pk" using pe k by simp
  from wrapGroups_focus[OF d0 wf pkey sub dc, of opts pns] obtain e1 cur' where
    w: "wrapGroups opts par pns ?gs (issue EnterWithoutNormalizing e) = Inr e1"
    and d1: "doc e1 = plug C (Elem ob pk ty cur')"
    and wf1: "wf_focus C pk cur' (next_key e1)"
    and c1: "\<forall>g\<in>set ?gs. \<exists>K. Elem block K (Some (containerType opts)) g \<in> set cur'"
    and o1: "\<forall>x\<in>set pns. x \<notin> set (concat ?gs) \<longrightarrow> x \<in> set cur'"
    by blast
  let ?e' = "issue LeaveWithoutNormalizing e1"
  have r: "noOrphanLine opts e error = Inr (ReturnsUndefined, ?e')"
    using p n w by (simp add: noOrphanLine_def withoutNormalizing_def)
  have d': "doc ?e' = plug C (Elem ob pk ty cur')" using d1 by (simp add: issue_def)
  from wf1 have dd: "distinct (ctx_keys C @ pk # keys_of cur')"
    and bb: "\<forall>k\<in>set (ctx_keys C @ pk # keys_of cur'). k < next_key ?e'"
    by (simp_all add: wf_focus_def issue_def)
  have "distinct (all_keys (doc ?e'))" using dd d' by (simp add: distinct_plug_iff)
  moreover have "\<forall>k\<in>set (all_keys (doc ?e')). k < next_key ?e'"
    using bb d' by (simp add: set_all_keys_plug)
  moreover have "\<forall>x\<in>set pns. \<not> isLine opts x \<longrightarrow> x \<in> set cur'"
    using o1 cc by auto
  moreover have "getNode pk (doc ?e') = Some (Elem ob pk ty cur')"
    using dd d' by (simp add: getNode_plug)
  moreover have "par = Elem ob pk ty pns" using pe k by simp
  ultimately show ?thesis using r C d' c1 by blast
qed

subsection \<open>Both repairs run to their end\<close>

text \<open>
  C8. \<open>getSuccessiveNodes\<close> is a total function: whenever it calls itself, the list it
  passes on (\<^verbatim>\<open>restOfNodes\<close>) is strictly shorter than the list it was given, which is
  the measure of its termination proof. It returns at most as many groups as there are nodes,
  and the groups hold at most as many nodes as the input. The repairs loop over these groups
  and over the nodes of a group only, and on a well-formed document (unique keys, all below
  the state of the key generator, the violation's node or parent being the node the document
  holds under its key, a reparse collaborator that issues fresh keys) both run to their end:
  \<open>noOrphanLine\<close> returns having issued at most two commands per child of the parent
  besides entering and leaving its scope, and \<open>onlyLine\<close> returns having issued the
  commands \<open>reline_commands\<close>.
\<close>

theorem repairs_terminate:
  "(drop (length (takeUntil match nodes)) nodes \<noteq> [] \<longrightarrow>
      length (drop (length (takeWhile match (drop (length (takeUntil match nodes)) nodes)))
               (drop (length (takeUntil match nodes)) nodes)) < length nodes) \<and>
   length (getSuccessiveNodes nodes match) \<le> length nodes \<and>
   length (concat (getSuccessiveNodes nodes match)) \<le> length nodes \<and>
   (parent error = Some par \<and> getNode pk (doc e) = Some par \<and> node_nodes par = Some pns \<and>
    distinct (all_keys (doc e)) \<and> (\<forall>k\<in>set (all_keys (doc e)). k < next_key e) \<longrightarrow>
      (\<exists>e'. noOrphanLine opts e error = Inr (ReturnsUndefined, e') \<and>
         length (new_commands e e') \<le> 2 + 2 * length pns)) \<and>
   (fresh_keys deserializeCode opts \<and> getNode ck (doc e) = Some (node error) \<and>
    node_nodes (node error) = Some cs \<and> distinct (all_keys (doc e)) \<and>
    (\<forall>k\<in>set (all_keys (doc e)). k < next_key e) \<longrightarrow>
      (\<exists>e'. onlyLine deserializeCode opts e error = Inr (ReturnsEditor, e') \<and>
         new_commands e e' = reline_commands deserializeCode opts ck 0 cs (next_key e)))"
proof (intro conjI impI)
  assume "drop (length (takeUntil match nodes)) nodes \<noteq> []"
  then show "length (drop (length (takeWhile match (drop (length (takeUntil match nodes)) nodes)))
               (drop (length (takeUntil match nodes)) nodes)) < length nodes"
    by (rule restOfNodes_shorter)
next
  show "length (getSuccessiveNodes nodes match) \<le> length nodes"
    by (rule getSuccessiveNodes_sizes)
next
  show "length (concat (getSuccessiveNodes nodes match)) \<le> length nodes"
    by (rule getSuccessiveNodes_sizes)
next
  assume a: "parent error = Some par \<and> getNode pk (doc e) = Some par \<and>
    node_nodes par = Some pns \<and>
    distinct (all_keys (doc e)) \<and> (\<forall>k\<in>set (all_keys (doc e)). k < next_key e)"
  then have p1: "parent error = Some par" and p2: "getNode pk (doc e) = Some par"
    and p3: "node_nodes par = Some pns" and p4: "distinct (all_keys (doc e))"
    and p5: "\<forall>k\<in>set (all_keys (doc e)). k < next_key e"
    by blast+
  from noOrphanLine_focus[OF p1 p2 p3 p4 p5, of opts]
  obtain e' where r: "noOrphanLine opts e error = Inr (ReturnsUndefined, e')" by blast
  from noOrphanLine_command_count[OF r] a
  have "length (new_commands e e') \<le> 2 + 2 * length pns" by auto
  with r show "\<exists>e'. noOrphanLine opts e error = Inr (ReturnsUndefined, e') \<and>
         length (new_commands e e') \<le> 2 + 2 * length pns"
    by blast
next
  assume a: "fresh_keys deserializeCode opts \<and> getNode ck (doc e) = Some (node error) \<and>
    node_nodes (node error) = Some cs \<and> distinct (all_keys (doc e)) \<and>
    (\<forall>k\<in>set (all_keys (doc e)). k < next_key e)"
  then have q1: "fresh_keys deserializeCode opts"
    and q2: "getNode ck (doc e) = Some (node error)"
    and q3: "node_nodes (node error) = Some cs" and q4: "distinct (all_keys (doc e))"
    and q5: "\<forall>k\<in>set (all_keys (doc e)). k < next_key e"
    by blast+
  from onlyLine_focus[OF q1 q2 q3 q4 q5]
  obtain e' where r: "onlyLine deserializeCode opts e error = Inr (ReturnsEditor, e')"
    and c: "commands e' = commands e @ reline_commands deserializeCode opts ck 0 cs (next_key e)"
    by blast
  from c have "new_commands e e' = reline_commands deserializeCode opts ck 0 cs (next_key e)"
    by (rule new_commands_append)
  with r show "\<exists>e'. onlyLine deserializeCode opts e error = Inr (ReturnsEditor, e') \<and>
         new_commands e e' = reline_commands deserializeCode opts ck 0 cs (next_key e)"
    by blast
qed

theorem repairs_terminate_witness:
  "length (drop (length (takeWhile even (drop (length (takeUntil even [3, 2, 4, 5 :: nat]))
              [3, 2, 4, 5 :: nat])))
            (drop (length (takeUntil even [3, 2, 4, 5 :: nat])) [3, 2, 4, 5 :: nat]))
     < length [3, 2, 4, 5 :: nat] \<and>
   (\<exists>e'. noOrphanLine
      \<lparr>containerType = ''code_block'', lineType = ''code_line'', allowMarks = False\<rparr>
      \<lparr>doc = Elem document 0 None
         [Elem block 2 (Some ''code_line'') [Text 3 ''a'' []],
          Elem block 4 (Some ''paragraph'') [Text 5 ''p'' []]],
       next_key = 6, commands = []\<rparr>
      \<lparr>code = PARENT_TYPE_INVALID,
       node = Elem block 2 (Some ''code_line'') [Text 3 ''a'' []],
       parent = Some (Elem document 0 None
         [Elem block 2 (Some ''code_line'') [Text 3 ''a'' []],
          Elem block 4 (Some ''paragraph'') [Text 5 ''p'' []]])\<rparr> =
     Inr (ReturnsUndefined, e') \<and>
     length (new_commands
       \<lparr>doc = Elem document 0 None
         [Elem block 2 (Some ''code_line'') [Text 3 ''a'' []],
          Elem block 4 (Some ''paragraph'') [Text 5 ''p'' []]],
        next_key = 6, commands = []\<rparr> e') \<le> 6) \<and>
   (\<exists>e'. onlyLine sample_deserializeCode
      \<lparr>containerType = ''code_block'', lineType = ''code_line'', allowMarks = False\<rparr>
      \<lparr>doc = Elem document 0 None [Elem block 2 (Some ''code_block'') [Text 3 ''x'' []]],
       next_key = 10, commands = []\<rparr>
      \<lparr>code = CHILD_OBJECT_INVALID,
       node = Elem block 2 (Some ''code_block'') [Text 3 ''x'' []], parent = None\<rparr> =
     Inr (ReturnsEditor, e'))"
proof -
  let ?opts = "\<lparr>containerType = ''code_block'', lineType = ''code_line'', allowMarks = False\<rparr>"
  let ?pns = "[Elem block 2 (Some ''code_line'') [Text 3 ''a'' []],
          Elem block 4 (Some ''paragraph'') [Text 5 ''p'' []]]"
  let ?par = "Elem document 0 None ?pns"
  let ?e1 = "\<lparr>doc = ?par, next_key = 6, commands = []\<rparr>"
  let ?err1 = "\<lparr>code = PARENT_TYPE_INVALID,
       node = Elem block 2 (Some ''code_line'') [Text 3 ''a'' []], parent = Some ?par\<rparr>"
  let ?c = "Elem block 2 (Some ''code_block'') [Text 3 ''x'' []]"
  let ?e2 = "\<lparr>doc = Elem document 0 None [?c], next_key = 10, commands = []\<rparr>"
  let ?err2 = "\<lparr>code = CHILD_OBJECT_INVALID, node = ?c, parent = None\<rparr>"
  have h0: "drop (length (takeUntil even [3, 2, 4, 5 :: nat])) [3, 2, 4, 5 :: nat] \<noteq> []"
    by (simp add: takeUntil_def)
  have h1: "parent ?err1 = Some ?par \<and> getNode 0 (doc ?e1) = Some ?par \<and>
      node_nodes ?par = Some ?pns \<and>
      distinct (all_keys (doc ?e1)) \<and> (\<forall>k\<in>set (all_keys (doc ?e1)). k < next_key ?e1)"
    by simp
  have h2: "fresh_keys sample_deserializeCode ?opts \<and> getNode 2 (doc ?e2) = Some (node ?err2) \<and>
      node_nodes (node ?err2) = Some [Text 3 ''x'' []] \<and> distinct (all_keys (doc ?e2)) \<and>
      (\<forall>k\<in>set (all_keys (doc ?e2)). k < next_key ?e2)"
    by (simp add: sample_deserializeCode_fresh)
  note t = repairs_terminate[where nodes = "[3, 2, 4, 5 :: nat]" and match = even
      and opts = ?opts and e = ?e1 and error = ?err1 and par = ?par and pk = 0 and pns = ?pns]
  note u = repairs_terminate[where opts = ?opts and e = ?e2 and error = ?err2
      and deserializeCode = sample_deserializeCode and ck = 2 and cs = "[Text 3 ''x'' []]"]
  from t h0 have a: "length (drop (length (takeWhile even (drop (length (takeUntil even [3, 2, 4, 5 :: nat]))
              [3, 2, 4, 5 :: nat])))
            (drop (length (takeUntil even [3, 2, 4, 5 :: nat])) [3, 2, 4, 5 :: nat]))
     < length [3, 2, 4, 5 :: nat]"
    by blast
  from t h1 have "\<exists>e'. noOrphanLine ?opts ?e1 ?err1 = Inr (ReturnsUndefined, e') \<and>
         length (new_commands ?e1 e') \<le> 2 + 2 * length ?pns"
    by blast
  then have b: "\<exists>e'. noOrphanLine ?opts ?e1 ?err1 = Inr (ReturnsUndefined, e') \<and>
         length (new_commands ?e1 e') \<le> 6"
    by simp
  from u h2 have c: "\<exists>e'. onlyLine sample_deserializeCode ?opts ?e2 ?err2 = Inr (ReturnsEditor, e')"
    by blast
  from a b c show ?thesis by blast
qed

text \<open>
  A further property of \<open>noOrphanLine\<close>, whatever the positions it computes: on a
  well-formed document whose node under the key \<open>pk\<close> is the parent of the violation, the
  repair returns, nothing outside the parent changes, every run of consecutive lines of the
  parent is, in its order, the complete child list of a block of the container type among
  the parent's children, every child that is not a line is still a child of the parent, and
  the keys of the document stay unique.
\<close>

theorem noOrphanLine_wraps_runs:
  assumes "parent error = Some par"
    and "getNode pk (doc e) = Some par"
    and "node_nodes par = Some pns"
    and "distinct (all_keys (doc e))"
    and "\<forall>k\<in>set (all_keys (doc e)). k < next_key e"
  shows "\<exists>e' C ob ty cur'.
      noOrphanLine opts e error = Inr (ReturnsUndefined, e') \<and>
      par = Elem ob pk ty pns \<and>
      doc e = plug C (Elem ob pk ty pns) \<and>
      doc e' = plug C (Elem ob pk ty cur') \<and>
      getNode pk (doc e') = Some (Elem ob pk ty cur') \<and>
      (\<forall>g\<in>set (getSuccessiveNodes pns (isLine opts)).
         \<exists>K. Elem block K (Some (containerType opts)) g \<in> set cur') \<and>
      (\<forall>x\<in>set pns. \<not> isLine opts x \<longrightarrow> x \<in> set cur') \<and>
      distinct (all_keys (doc e'))"
  using noOrphanLine_focus[OF assms, of opts] by blast

theorem noOrphanLine_wraps_runs_witness:
  "\<exists>e' cur'. noOrphanLine
      \<lparr>containerType = ''code_block'', lineType = ''code_line'', allowMarks = False\<rparr>
      \<lparr>doc = Elem document 0 None
         [Elem block 2 (Some ''code_line'') [Text 3 ''a'' []],
          Elem block 4 (Some ''paragraph'') [Text 5 ''p'' []]],
       next_key = 6, commands = []\<rparr>
      \<lparr>code = PARENT_TYPE_INVALID,
       node = Elem block 2 (Some ''code_line'') [Text 3 ''a'' []],
       parent = Some (Elem document 0 None
         [Elem block 2 (Some ''code_line'') [Text 3 ''a'' []],
          Elem block 4 (Some ''paragraph'') [Text 5 ''p'' []]])\<rparr> =
     Inr (ReturnsUndefined, e') \<and>
     getNode 0 (doc e') = Some (Elem document 0 None cur') \<and>
     (\<exists>K. Elem block K (Some ''code_block'') [Elem block 2 (Some ''code_line'') [Text 3 ''a'' []]]
        \<in> set cur') \<and>
     Elem block 4 (Some ''paragraph'') [Text 5 ''p'' []] \<in> set cur'"
proof -
  let ?opts = "\<lparr>containerType = ''code_block'', lineType = ''code_line'', allowMarks = False\<rparr>"
  let ?l = "Elem block 2 (Some ''code_line'') [Text 3 ''a'' []]"
  let ?p = "Elem block 4 (Some ''paragraph'') [Text 5 ''p'' []]"
  let ?pns = "[?l, ?p]"
  let ?par = "Elem document 0 None ?pns"
  let ?e = "\<lparr>doc = ?par, next_key = 6, commands = []\<rparr>"
  let ?err = "\<lparr>code = PARENT_TYPE_INVALID, node = ?l, parent = Some ?par\<rparr>"
  have h1: "parent ?err = Some ?par" by simp
  have h2: "getNode 0 (doc ?e) = Some ?par" by simp
  have h3: "node_nodes ?par = Some ?pns" by simp
  have h4: "distinct (all_keys (doc ?e))" by simp
  have h5: "\<forall>k\<in>set (all_keys (doc ?e)). k < next_key ?e" by simp
  have gs: "getSuccessiveNodes ?pns (isLine ?opts) = [[?l]]"
    by (simp add: getSuccessiveNodes_Cons getSuccessiveNodes_Nil isLine_def)
  have np: "\<not> isLine ?opts ?p" by (simp add: isLine_def)
  from noOrphanLine_wraps_runs[OF h1 h2 h3 h4 h5, of ?opts] obtain e' C ob ty cur' where
    r: "noOrphanLine ?opts ?e ?err = Inr (ReturnsUndefined, e')"
    and d: "?par = Elem ob 0 ty ?pns"
    and d': "getNode 0 (doc e') = Some (Elem ob 0 ty cur')"
    and c: "\<forall>g\<in>set (getSuccessiveNodes ?pns (isLine ?opts)).
         \<exists>K. Elem block K (Some (containerType ?opts)) g \<in> set cur'"
    and o: "\<forall>x\<in>set ?pns. \<not> isLine ?opts x \<longrightarrow> x \<in> set cur'"
    by blast
  from d have "ob = document \<and> ty = None" by simp
  with d' have g: "getNode 0 (doc e') = Some (Elem document 0 None cur')" by simp
  from c gs have k: "\<exists>K. Elem block K (Some ''code_block'') [?l] \<in> set cur'" by simp
  from o np have p: "?p \<in> set cur'" by simp
  from r g k p show ?thesis by blast
qed

end
